theory Spec2Isabelle
  imports Main "HOL-Library.Multiset"
begin

section \<open>Note sequences and errors\<close>

text \<open>
  A note of a quantized \<open>NoteSequence\<close>: the three fields that \<open>data.ts\<close> reads
  and writes. Steps are integers, the start inclusive and the end exclusive.
\<close>

record inote =
  pitch :: int
  quantizedStartStep :: int
  quantizedEndStep :: int

text \<open>
  \<open>NoteSequence.Note.create\<close> with the fields given; a field left out keeps the
  default 0 of the message type.
\<close>

definition Note_create :: "int \<Rightarrow> int \<Rightarrow> int \<Rightarrow> inote" where
  "Note_create p s e = \<lparr>pitch = p, quantizedStartStep = s, quantizedEndStep = e\<rparr>"

text \<open>
  The failures of the source as values: the two \<open>Error\<close>s thrown by
  \<open>MelodyConverter.toTensor\<close>, and the \<open>TypeError\<close> that JavaScript raises when
  an element of \<open>undefined\<close> is read (\<open>this.pitchClasses[p][0]\<close> with \<open>p\<close> beyond
  the table).
\<close>

datatype error = NotMonophonic | PitchOutOfRange int | TypeError

section \<open>The tensor library\<close>

text \<open>
  The tensor library (\<open>dl.buffer\<close>, \<open>set\<close>, \<open>oneHot\<close>, \<open>argMax\<close>) is not under
  src/: its operations are modelled as far as \<open>data.ts\<close> uses them.
  Buffer cells are integers; the decoders only compare cells and test them against 0.
\<close>

text \<open>
  Modelled from the spec: \<open>dl.buffer([n])\<close>, the one-dimensional buffer of the tensor
  library, which starts filled with zeros ("all steps never touched retain label 0").
\<close>

definition buffer1 :: "nat \<Rightarrow> int list" where
  "buffer1 n = replicate n 0"

text \<open>
  Modelled from the spec: \<open>set(v, i)\<close> of the tensor library on a one-dimensional
  buffer stores \<open>v\<close> at step \<open>i\<close>; a write outside the buffer stores nothing (the
  values are a typed array, which does not grow).
\<close>

definition set1 :: "int \<Rightarrow> int \<Rightarrow> int list \<Rightarrow> int list" where
  "set1 v i buf = (if 0 \<le> i \<and> i < int (length buf) then buf[nat i := v] else buf)"

text \<open>
  \<open>dl.buffer([rows, cols])\<close>, the two-dimensional buffer of the tensor library: its
  values are one flat typed array of \<open>rows * cols\<close> zeros, the rows one after the
  other.
\<close>

definition buffer2 :: "nat \<Rightarrow> nat \<Rightarrow> int list" where
  "buffer2 rows cols = replicate (rows * cols) 0"

text \<open>
  \<open>set(v, r, col)\<close> of the tensor library on a two-dimensional buffer of \<open>cols\<close>
  columns: the library adds the coordinates up to the flat index \<open>r * cols + col\<close> and
  stores \<open>v\<close> there. It does not check the coordinates against the shape, so the
  column \<open>-1\<close> is the cell before the first cell of row \<open>r\<close>: the final cell of row
  \<open>r - 1\<close>. A store outside the typed array stores nothing, and neither does one at
  an undefined column (\<open>None\<close>), whose index is not a number.
\<close>

definition set2 :: "int \<Rightarrow> int \<Rightarrow> int option \<Rightarrow> nat \<Rightarrow> int list \<Rightarrow> int list" where
  "set2 v r col cols buf =
     (case col of
        None \<Rightarrow> buf
      | Some j \<Rightarrow> set1 v (r * int cols + j) buf)"

text \<open>
  \<open>toTensor()\<close> of the tensor library on a two-dimensional buffer: the flat values
  cut into \<open>rows\<close> rows of \<open>cols\<close> cells.
\<close>

definition toTensor2 :: "nat \<Rightarrow> nat \<Rightarrow> int list \<Rightarrow> int list list" where
  "toTensor2 rows cols buf = map (\<lambda>r. take cols (drop (r * cols) buf)) [0..<rows]"

text \<open>
  Modelled from the spec: \<open>dl.oneHot\<close> of the tensor library expands every label
  into a row of the given depth, with a 1 at the label's position.
\<close>

definition oneHot :: "int list \<Rightarrow> int \<Rightarrow> int list list" where
  "oneHot labels d = map (\<lambda>l. map (\<lambda>j. if int j = l then 1 else 0) [0..<nat d]) labels"

text \<open>
  Modelled from the spec: \<open>argMax(1)\<close> of the tensor library gives for every row the
  position of its greatest entry, the first one among equals, and 0 for an empty row.
\<close>

fun argMax_from :: "'a::linorder \<Rightarrow> nat \<Rightarrow> nat \<Rightarrow> 'a list \<Rightarrow> nat" where
  "argMax_from m mi j [] = mi"
| "argMax_from m mi j (x # xs) =
     (if m < x then argMax_from x j (Suc j) xs else argMax_from m mi (Suc j) xs)"

definition argMax :: "'a::linorder list \<Rightarrow> nat" where
  "argMax row = (case row of [] \<Rightarrow> 0 | x # xs \<Rightarrow> argMax_from x 0 1 xs)"

section \<open>MelodyConverter\<close>

record melody_converter =
  numSteps :: nat
  numSegments :: "nat option"
  minPitch :: int
  maxPitch :: int
  depth :: int

definition NOTE_OFF :: int where
  "NOTE_OFF = 1"

definition FIRST_PITCH :: int where
  "FIRST_PITCH = 2"

text \<open>The constructor: \<open>depth = maxPitch - minPitch + 3\<close>.\<close>

definition MelodyConverter :: "nat \<Rightarrow> int \<Rightarrow> int \<Rightarrow> nat option \<Rightarrow> melody_converter" where
  "MelodyConverter steps lo hi segs =
     \<lparr>numSteps = steps, numSegments = segs, minPitch = lo, maxPitch = hi, depth = hi - lo + 3\<rparr>"

text \<open>
  The body of \<open>sortedNotes.forEach\<close> in \<open>toTensor\<close>, with \<open>lastEnd\<close> and the buffer
  \<open>mel\<close> passed along. A \<open>throw\<close> ends the loop with \<open>Inl\<close>.
\<close>

fun melody_forEach :: "melody_converter \<Rightarrow> inote list \<Rightarrow> int \<Rightarrow> int list \<Rightarrow> error + int list" where
  "melody_forEach c [] lastEnd mel = Inr mel"
| "melody_forEach c (n # ns) lastEnd mel =
     (if quantizedStartStep n < lastEnd then Inl NotMonophonic
      else if pitch n < minPitch c \<or> pitch n > maxPitch c then Inl (PitchOutOfRange (pitch n))
      else melody_forEach c ns (quantizedEndStep n)
             (set1 NOTE_OFF (quantizedEndStep n)
                (set1 (pitch n - minPitch c + FIRST_PITCH) (quantizedStartStep n) mel)))"

text \<open>
  \<open>noteSequence.notes.sort(...)\<close> sorts the caller's array in place, by ascending
  \<open>quantizedStartStep\<close>, and returns that same array; the sort keeps notes of equal
  start step in their order (ECMAScript 2019). The per-step labels are the buffer \<open>mel\<close>
  after the loop.
\<close>

definition MelodyConverter_labels :: "melody_converter \<Rightarrow> inote list \<Rightarrow> error + int list" where
  "MelodyConverter_labels c notes =
     melody_forEach c (sort_key quantizedStartStep notes) (-1) (buffer1 (numSteps c))"

text \<open>
  \<open>toTensor\<close>, state passing: the first component is the caller's \<open>notes\<close> array
  after the call, the second the one-hot tensor or the error thrown.
\<close>

definition MelodyConverter_toTensor ::
  "melody_converter \<Rightarrow> inote list \<Rightarrow> inote list \<times> (error + int list list)" where
  "MelodyConverter_toTensor c notes =
     (let sortedNotes = sort_key quantizedStartStep notes in
        (sortedNotes,
         case melody_forEach c sortedNotes (-1) (buffer1 (numSteps c)) of
           Inl e \<Rightarrow> Inl e
         | Inr mel \<Rightarrow> Inr (oneHot mel (depth c))))"

text \<open>
  One turn of the \<open>switch\<close> in \<open>toNoteSequence\<close>, on the pair of \<open>currNote\<close> and
  the notes pushed so far.
\<close>

definition melody_switch ::
  "melody_converter \<Rightarrow> nat \<Rightarrow> nat \<Rightarrow> inote option \<times> inote list \<Rightarrow> inote option \<times> inote list" where
  "melody_switch c s label st =
     (case st of (currNote, notes) \<Rightarrow>
        if label = 0 then (currNote, notes)
        else if label = 1 then
          (case currNote of
             None \<Rightarrow> (None, notes)
           | Some n \<Rightarrow> (None, notes @ [n\<lparr>quantizedEndStep := int s\<rparr>]))
        else
          (Some (Note_create (int label - FIRST_PITCH + minPitch c) (int s) 0),
           case currNote of
             None \<Rightarrow> notes
           | Some n \<Rightarrow> notes @ [n\<lparr>quantizedEndStep := int s\<rparr>]))"

text \<open>The loop \<open>for (let s = 0; s < labels.length; ++s)\<close> and what follows it.\<close>

function melody_steps ::
  "melody_converter \<Rightarrow> nat list \<Rightarrow> nat \<Rightarrow> inote option \<times> inote list \<Rightarrow> inote list" where
  "melody_steps c labels s st =
     (if s < length labels then melody_steps c labels (Suc s) (melody_switch c s (labels ! s) st)
      else (case st of
              (None, notes) \<Rightarrow> notes
            | (Some n, notes) \<Rightarrow> notes @ [n\<lparr>quantizedEndStep := int (length labels)\<rparr>]))"
  by pat_completeness auto
termination
  by (relation "measure (\<lambda>(c, labels, s, st). length labels - s)") auto

declare melody_steps.simps [simp del]

definition MelodyConverter_toNoteSequence :: "melody_converter \<Rightarrow> 'a::linorder list list \<Rightarrow> inote list" where
  "MelodyConverter_toNoteSequence c oh = melody_steps c (map argMax oh) 0 (None, [])"

section \<open>DrumsConverter and DrumRollConverter\<close>

record drums_converter =
  drumSteps :: nat
  drumSegments :: "nat option"
  pitchClasses :: "int list list"
  pitchToClass :: "int \<rightharpoonup> nat"

definition DEFAULT_DRUM_PITCH_CLASSES :: "int list list" where
  "DEFAULT_DRUM_PITCH_CLASSES =
     [[36, 35],
      [38, 27, 28, 31, 32, 33, 34, 37, 39, 40, 56, 65, 66, 75, 85],
      [42, 44, 54, 68, 69, 70, 71, 73, 78, 80],
      [46, 67, 72, 74, 79, 81],
      [45, 29, 41, 61, 64, 84],
      [48, 47, 60, 63, 77, 86, 87],
      [50, 30, 43, 62, 76, 83],
      [49, 55, 57, 58],
      [51, 52, 53, 59, 82]]"

text \<open>
  The constructor's loop over the classes, from class \<open>c\<close> on: every pitch of a class
  is entered with the class's index, a later entry replacing an earlier one.
\<close>

fun register_classes :: "int list list \<Rightarrow> nat \<Rightarrow> (int \<rightharpoonup> nat) \<Rightarrow> (int \<rightharpoonup> nat)" where
  "register_classes [] c m = m"
| "register_classes (cl # cls) c m = register_classes cls (Suc c) (fold (\<lambda>p m'. m'(p \<mapsto> c)) cl m)"

definition DrumsConverter :: "nat \<Rightarrow> nat option \<Rightarrow> int list list option \<Rightarrow> drums_converter" where
  "DrumsConverter steps segs classes =
     (let pcs = (case classes of None \<Rightarrow> DEFAULT_DRUM_PITCH_CLASSES | Some cs \<Rightarrow> cs) in
        \<lparr>drumSteps = steps, drumSegments = segs, pitchClasses = pcs,
         pitchToClass = register_classes pcs 0 Map.empty\<rparr>)"

text \<open>
  The first loop of \<open>toTensor\<close>: \<open>drumRoll.set(1, i, -1)\<close> for every row from \<open>i\<close>
  on, in a buffer of \<open>cols\<close> columns.
\<close>

function set_finals :: "nat \<Rightarrow> nat \<Rightarrow> nat \<Rightarrow> int list \<Rightarrow> int list" where
  "set_finals n cols i buf =
     (if i < n then set_finals n cols (Suc i) (set2 1 (int i) (Some (-1)) cols buf) else buf)"
  by pat_completeness auto
termination
  by (relation "measure (\<lambda>(n, cols, i, buf). n - i)") auto

declare set_finals.simps [simp del]

text \<open>
  The body of \<open>noteSequence.notes.forEach\<close>: \<open>drumRoll.set(1, start, class)\<close>, the
  column being \<open>this.pitchToClass[note.pitch]\<close> (undefined for a pitch that was never
  entered), then \<open>drumRoll.set(0, start, -1)\<close>.
\<close>

fun drums_forEach :: "drums_converter \<Rightarrow> inote list \<Rightarrow> int list \<Rightarrow> int list" where
  "drums_forEach c [] drumRoll = drumRoll"
| "drums_forEach c (n # ns) drumRoll =
     drums_forEach c ns
       (set2 0 (quantizedStartStep n) (Some (-1)) (length (pitchClasses c) + 1)
          (set2 1 (quantizedStartStep n) (map_option int (pitchToClass c (pitch n)))
             (length (pitchClasses c) + 1) drumRoll))"

text \<open>\<open>DrumsConverter.toTensor\<close>; nothing in it throws, so the result is always \<open>Inr\<close>.\<close>

definition DrumsConverter_toTensor :: "drums_converter \<Rightarrow> inote list \<Rightarrow> error + int list list" where
  "DrumsConverter_toTensor c notes =
     Inr (toTensor2 (drumSteps c) (length (pitchClasses c) + 1)
            (drums_forEach c notes
               (set_finals (drumSteps c) (length (pitchClasses c) + 1) 0
                  (buffer2 (drumSteps c) (length (pitchClasses c) + 1)))))"

text \<open>
  The canonical pitch \<open>this.pitchClasses[p][0]\<close> of a class of the table; for an empty
  class the element is undefined and the created note keeps the default pitch 0.
\<close>

definition canonicalPitch :: "drums_converter \<Rightarrow> nat \<Rightarrow> int" where
  "canonicalPitch c p = (case pitchClasses c ! p of [] \<Rightarrow> 0 | x # _ \<Rightarrow> x)"

text \<open>
  The inner loop of \<open>DrumRollConverter.toNoteSequence\<close> over the cells of row \<open>s\<close>,
  from column \<open>p\<close> on. It visits every column of the row it is given; a nonzero cell at
  a column with no class reads \<open>this.pitchClasses[p][0]\<close> of \<open>undefined\<close> and throws.
\<close>

fun roll_cells :: "drums_converter \<Rightarrow> nat \<Rightarrow> int list \<Rightarrow> nat \<Rightarrow> inote list \<Rightarrow> error + inote list" where
  "roll_cells c s [] p notes = Inr notes"
| "roll_cells c s (x # xs) p notes =
     (if x \<noteq> 0 then
        (if p < length (pitchClasses c)
         then roll_cells c s xs (Suc p) (notes @ [Note_create (canonicalPitch c p) (int s) (int s + 1)])
         else Inl TypeError)
      else roll_cells c s xs (Suc p) notes)"

text \<open>The outer loop over the rows, from row \<open>s\<close> on.\<close>

fun roll_rows :: "drums_converter \<Rightarrow> int list list \<Rightarrow> nat \<Rightarrow> inote list \<Rightarrow> error + inote list" where
  "roll_rows c [] s notes = Inr notes"
| "roll_rows c (row # rows) s notes =
     (case roll_cells c s row 0 notes of
        Inl e \<Rightarrow> Inl e
      | Inr notes' \<Rightarrow> roll_rows c rows (Suc s) notes')"

definition DrumRollConverter_toNoteSequence :: "drums_converter \<Rightarrow> int list list \<Rightarrow> error + inote list" where
  "DrumRollConverter_toNoteSequence c roll = roll_rows c roll 0 []"

section \<open>Worked examples\<close>

definition melody_example :: melody_converter where
  "melody_example = MelodyConverter 4 60 61 None"

definition melody_example_notes :: "inote list" where
  "melody_example_notes = [Note_create 60 0 2, Note_create 61 2 4]"

definition drums_example :: drums_converter where
  "drums_example = DrumsConverter 2 None (Some [[36], [38]])"

definition overlap_example_notes :: "inote list" where
  "overlap_example_notes = [Note_create 61 1 3, Note_create 60 0 2]"

definition unsorted_example_notes :: "inote list" where
  "unsorted_example_notes = [Note_create 61 2 3, Note_create 60 0 2]"

section \<open>Predicates used in the statements\<close>

text \<open>The pitch passes the range check of \<open>toTensor\<close>.\<close>

definition in_range :: "melody_converter \<Rightarrow> inote \<Rightarrow> bool" where
  "in_range c n \<longleftrightarrow> minPitch c \<le> pitch n \<and> pitch n \<le> maxPitch c"

text \<open>
  A list of notes in which the first starts at \<open>e\<close> or later, every note ends after it
  starts, and every note starts at the end of the one before it or later.
\<close>

fun chained :: "int \<Rightarrow> inote list \<Rightarrow> bool" where
  "chained e [] = True"
| "chained e (n # ns) =
     (e \<le> quantizedStartStep n \<and> quantizedStartStep n < quantizedEndStep n \<and>
      chained (quantizedEndStep n) ns)"

text \<open>What closing \<open>currNote\<close> at step \<open>s\<close> pushes: nothing when no note is open.\<close>

definition close_at :: "inote option \<Rightarrow> int \<Rightarrow> inote list" where
  "close_at cur s = (case cur of None \<Rightarrow> [] | Some n \<Rightarrow> [n\<lparr>quantizedEndStep := s\<rparr>])"

text \<open>The end step of the last note pushed, 0 when none was.\<close>

definition last_end :: "inote list \<Rightarrow> int" where
  "last_end ns = (if ns = [] then 0 else quantizedEndStep (last ns))"

text \<open>
  The invariant of the loop of \<open>toNoteSequence\<close> before step \<open>s\<close>: the notes pushed
  are chained from step 0 and have pitches within the range; an open note starts before
  \<open>s\<close> and after the notes pushed, and its pitch is within the range.
\<close>

definition decode_inv :: "melody_converter \<Rightarrow> nat \<Rightarrow> inote option \<times> inote list \<Rightarrow> bool" where
  "decode_inv c s st = (case st of (cur, acc) \<Rightarrow>
     chained 0 acc \<and> list_all (in_range c) acc \<and>
     (case cur of None \<Rightarrow> last_end acc \<le> int s
      | Some n \<Rightarrow> last_end acc \<le> quantizedStartStep n \<and> quantizedStartStep n < int s \<and> in_range c n))"

text \<open>A tensor of \<open>r\<close> rows, every row of \<open>w\<close> cells.\<close>

definition shaped :: "nat \<Rightarrow> nat \<Rightarrow> int list list \<Rightarrow> bool" where
  "shaped r w buf \<longleftrightarrow> length buf = r \<and> list_all (\<lambda>row. length row = w) buf"

text \<open>Every class index that \<open>pitchToClass\<close> holds is an index of the table.\<close>

definition table_ok :: "drums_converter \<Rightarrow> bool" where
  "table_ok c \<longleftrightarrow> (\<forall>p k. pitchToClass c p = Some k \<longrightarrow> k < length (pitchClasses c))"

text \<open>The note that the drum decoders push for class \<open>p\<close> at step \<open>s\<close>.\<close>

definition unit_note :: "drums_converter \<Rightarrow> nat \<Rightarrow> nat \<Rightarrow> inote" where
  "unit_note c s p = Note_create (canonicalPitch c p) (int s) (int s + 1)"

text \<open>
  No two notes of the list overlap: of any two, one ends no later than the other starts.
\<close>

definition non_overlapping :: "inote list \<Rightarrow> bool" where
  "non_overlapping ns \<longleftrightarrow>
     (\<forall>i<length ns. \<forall>j<length ns. i \<noteq> j \<longrightarrow>
        quantizedEndStep (ns ! i) \<le> quantizedStartStep (ns ! j) \<or>
        quantizedEndStep (ns ! j) \<le> quantizedStartStep (ns ! i))"

section \<open>MelodyConverter.toTensor: the caller's array\<close>

text \<open>
  C4, as amended. \<open>toTensor\<close> sorts the caller's notes in place: whether it returns or
  throws, the caller's array afterwards holds the same notes, in ascending order of
  start step, notes of equal start step in their former order; it is the array as it
  was exactly when that was already in ascending order of start step.
\<close>

theorem toTensor_sorts_callers_notes:
  "mset (fst (MelodyConverter_toTensor c ns)) = mset ns \<and>
   sorted (map quantizedStartStep (fst (MelodyConverter_toTensor c ns))) \<and>
   (\<forall>k. filter (\<lambda>n. quantizedStartStep n = k) (fst (MelodyConverter_toTensor c ns)) =
        filter (\<lambda>n. quantizedStartStep n = k) ns) \<and>
   (fst (MelodyConverter_toTensor c ns) = ns \<longleftrightarrow> sorted (map quantizedStartStep ns))"
proof -
  have eq: "fst (MelodyConverter_toTensor c ns) = sort_key quantizedStartStep ns"
    by (simp add: MelodyConverter_toTensor_def Let_def)
  have "sort_key quantizedStartStep ns = ns \<longleftrightarrow> sorted (map quantizedStartStep ns)"
    by (metis sort_key_id_if_sorted sorted_sort_key)
  then show ?thesis
    unfolding eq by (simp add: sort_key_stable)
qed

text \<open>
  C4 as stated fails: after encoding two notes given in descending order of start step,
  the caller's array holds them in the other order.
\<close>

theorem toTensor_reorders_callers_notes:
  "fst (MelodyConverter_toTensor melody_example overlap_example_notes) =
     [Note_create 60 0 2, Note_create 61 1 3] \<and>
   fst (MelodyConverter_toTensor melody_example overlap_example_notes) \<noteq> overlap_example_notes"
  by code_simp

section \<open>MelodyConverter: the worked example\<close>

text \<open>
  C5 as stated fails: for \<open>numSteps = 4\<close>, \<open>minPitch = 60\<close>, \<open>maxPitch = 61\<close> and the
  notes (60, 0, 2) and (61, 2, 4), the labels are not [2, 1, 3, 1] and the depth is
  not 5.
\<close>

theorem melody_example_labels_differ:
  "MelodyConverter_labels melody_example melody_example_notes \<noteq> Inr [2, 1, 3, 1] \<and>
   depth melody_example \<noteq> 5"
  by code_simp

text \<open>
  C5, as amended. The labels are [2, 0, 3, 0]: the note-off of the first note at
  step 2 is replaced by the note-on of the second, and the note-off of the second
  falls at step 4, outside the buffer. The depth is 4. Decoding the one-hot tensor
  returns the same two notes.
\<close>

theorem melody_example_roundtrip:
  "depth melody_example = 4 \<and>
   MelodyConverter_labels melody_example melody_example_notes = Inr [2, 0, 3, 0] \<and>
   snd (MelodyConverter_toTensor melody_example melody_example_notes) =
     Inr [[0, 0, 1, 0], [1, 0, 0, 0], [0, 0, 0, 1], [1, 0, 0, 0]] \<and>
   MelodyConverter_toNoteSequence melody_example
     [[0, 0, 1, 0], [1, 0, 0, 0], [0, 0, 0, 1], [1 :: int, 0, 0, 0]] = melody_example_notes"
  by code_simp

section \<open>MelodyConverter.toTensor: the two guards\<close>

lemma forEach_head_overlap:
  "ns \<noteq> [] \<Longrightarrow> quantizedStartStep (hd ns) < e \<Longrightarrow> melody_forEach c ns e mel = Inl NotMonophonic"
  by (cases ns) auto

lemma forEach_overlap_fails:
  "i < j \<Longrightarrow> j < length ns \<Longrightarrow> sorted (map quantizedStartStep ns) \<Longrightarrow>
   quantizedStartStep (ns ! j) < quantizedEndStep (ns ! i) \<Longrightarrow>
   isl (melody_forEach c ns e mel) \<and>
   ((\<forall>k\<le>i. in_range c (ns ! k)) \<longrightarrow> melody_forEach c ns e mel = Inl NotMonophonic)"
proof (induction ns arbitrary: i j e mel)
  case Nil
  then show ?case by simp
next
  case (Cons n ns)
  from Cons.prems obtain j' where j: "j = Suc j'" "j' < length ns"
    by (cases j) auto
  show ?case
  proof (cases i)
    case 0
    from j have ne: "ns \<noteq> []" by auto
    from Cons.prems(3) have "sorted (map quantizedStartStep ns)" by simp
    from sorted_nth_mono[OF this, of 0 j'] j
    have "quantizedStartStep (hd ns) \<le> quantizedStartStep (ns ! j')"
      by (simp add: hd_conv_nth ne)
    with Cons.prems(4) 0 j have lt: "quantizedStartStep (hd ns) < quantizedEndStep n"
      by simp
    show ?thesis
      using forEach_head_overlap[OF ne lt, of c] 0
      by (auto simp: in_range_def)
  next
    case (Suc i')
    with Cons.prems j have p: "i' < j'" "sorted (map quantizedStartStep ns)"
      "quantizedStartStep (ns ! j') < quantizedEndStep (ns ! i')"
      by auto
    note IH = Cons.IH[OF p(1) j(2) p(2) p(3)]
    have all: "(\<forall>k\<le>i. in_range c ((n # ns) ! k)) \<Longrightarrow> (\<forall>k\<le>i'. in_range c (ns ! k))"
      using Suc by auto
    show ?thesis
      using IH all by (auto simp: in_range_def)
  qed
qed

text \<open>
  C7, as amended. Let two notes be such that in the sorted array the later one starts
  before the earlier one ends. Then \<open>toTensor\<close> throws and returns no tensor. The error
  is the one of the first failing check: it is \<open>NotMonophonic\<close> when every note up to
  the earlier of the two, in sorted order, has its pitch within the range.
\<close>

theorem toTensor_overlap_throws:
  assumes "i < j" and "j < length ns"
    and "quantizedStartStep (sort_key quantizedStartStep ns ! j)
           < quantizedEndStep (sort_key quantizedStartStep ns ! i)"
  shows "isl (snd (MelodyConverter_toTensor c ns)) \<and>
         ((\<forall>k\<le>i. in_range c (sort_key quantizedStartStep ns ! k)) \<longrightarrow>
            snd (MelodyConverter_toTensor c ns) = Inl NotMonophonic)"
proof -
  let ?S = "sort_key quantizedStartStep ns"
  have "j < length ?S" using assms(2) by simp
  from forEach_overlap_fails[OF assms(1) this sorted_sort_key assms(3), of c "-1" "buffer1 (numSteps c)"]
  show ?thesis
    by (auto simp: MelodyConverter_toTensor_def Let_def split: sum.splits)
qed

theorem toTensor_overlap_throws_witness:
  "quantizedStartStep (sort_key quantizedStartStep overlap_example_notes ! 1)
     < quantizedEndStep (sort_key quantizedStartStep overlap_example_notes ! 0) \<and>
   isl (snd (MelodyConverter_toTensor melody_example overlap_example_notes)) \<and>
   snd (MelodyConverter_toTensor melody_example overlap_example_notes) = Inl NotMonophonic"
proof -
  have h1: "(0::nat) < 1" by simp
  have h2: "1 < length overlap_example_notes" by code_simp
  have h3: "quantizedStartStep (sort_key quantizedStartStep overlap_example_notes ! 1)
     < quantizedEndStep (sort_key quantizedStartStep overlap_example_notes ! 0)" by code_simp
  have h4: "\<forall>k\<le>0. in_range melody_example (sort_key quantizedStartStep overlap_example_notes ! k)"
    by code_simp
  from toTensor_overlap_throws[OF h1 h2 h3, of melody_example] h3 h4 show ?thesis
    by blast
qed

text \<open>
  C7 as stated fails: the notes (59, 0, 2) and (60, 1, 3) overlap, and \<open>toTensor\<close>
  throws the range error for pitch 59, which it meets first.
\<close>

theorem toTensor_overlap_other_error:
  "quantizedStartStep (sort_key quantizedStartStep [Note_create 59 0 2, Note_create 60 1 3] ! 1)
     < quantizedEndStep (sort_key quantizedStartStep [Note_create 59 0 2, Note_create 60 1 3] ! 0) \<and>
   snd (MelodyConverter_toTensor melody_example [Note_create 59 0 2, Note_create 60 1 3])
     = Inl (PitchOutOfRange 59) \<and>
   snd (MelodyConverter_toTensor melody_example [Note_create 59 0 2, Note_create 60 1 3])
     \<noteq> Inl NotMonophonic"
  by code_simp

lemma forEach_range_fails:
  "k < length ns \<Longrightarrow> \<not> in_range c (ns ! k) \<Longrightarrow>
   isl (melody_forEach c ns e mel) \<and>
   ((\<forall>m<k. in_range c (ns ! m)) \<and>
    (\<forall>m\<le>k. (if m = 0 then e else quantizedEndStep (ns ! (m - 1))) \<le> quantizedStartStep (ns ! m))
    \<longrightarrow> melody_forEach c ns e mel = Inl (PitchOutOfRange (pitch (ns ! k))))"
proof (induction ns arbitrary: k e mel)
  case Nil
  then show ?case by simp
next
  case (Cons n ns)
  show ?case
  proof (cases k)
    case 0
    with Cons.prems show ?thesis by (auto simp: in_range_def)
  next
    case (Suc k')
    with Cons.prems have p: "k' < length ns" "\<not> in_range c (ns ! k')" by auto
    note IH = Cons.IH[OF p, of "quantizedEndStep n"]
    have fails: "isl (melody_forEach c (n # ns) e mel)"
      using IH by simp
    have res: "melody_forEach c (n # ns) e mel = Inl (PitchOutOfRange (pitch ((n # ns) ! k)))"
      if h1: "\<forall>m<k. in_range c ((n # ns) ! m)"
        and h2: "\<forall>m\<le>k. (if m = 0 then e else quantizedEndStep ((n # ns) ! (m - 1))) \<le> quantizedStartStep ((n # ns) ! m)"
    proof -
      have r0: "in_range c n" using h1[rule_format, of 0] Suc by simp
      have e0: "e \<le> quantizedStartStep n" using h2[rule_format, of 0] by simp
      have r': "\<forall>m<k'. in_range c (ns ! m)"
      proof (intro allI impI)
        fix m assume "m < k'"
        then have "Suc m < k" using Suc by simp
        from h1[rule_format, OF this] show "in_range c (ns ! m)" by simp
      qed
      have e': "\<forall>m\<le>k'. (if m = 0 then quantizedEndStep n else quantizedEndStep (ns ! (m - 1))) \<le> quantizedStartStep (ns ! m)"
      proof (intro allI impI)
        fix m assume "m \<le> k'"
        then have "Suc m \<le> k" using Suc by simp
        from h2[rule_format, OF this]
        show "(if m = 0 then quantizedEndStep n else quantizedEndStep (ns ! (m - 1))) \<le> quantizedStartStep (ns ! m)"
          by (cases m) simp_all
      qed
      from IH r' e' have "melody_forEach c ns (quantizedEndStep n) (set1 NOTE_OFF (quantizedEndStep n)
                (set1 (pitch n - minPitch c + FIRST_PITCH) (quantizedStartStep n) mel)) = Inl (PitchOutOfRange (pitch (ns ! k')))"
        by blast
      with r0 e0 Suc show ?thesis
        by (simp add: in_range_def)
    qed
    from fails res show ?thesis by blast
  qed
qed

text \<open>
  C8, as amended. When a note's pitch is below \<open>minPitch\<close> or above \<open>maxPitch\<close>,
  \<open>toTensor\<close> throws and returns no tensor. The error is the one of the first failing
  check: it is the range error for that pitch when, in sorted order, every note before
  it has its pitch within the range and every note up to it starts at the end of the
  one before it or later (the first at step -1 or later).
\<close>

theorem toTensor_out_of_range_throws:
  assumes "k < length ns"
    and "pitch (sort_key quantizedStartStep ns ! k) < minPitch c \<or>
         pitch (sort_key quantizedStartStep ns ! k) > maxPitch c"
  shows "isl (snd (MelodyConverter_toTensor c ns)) \<and>
         ((\<forall>m<k. in_range c (sort_key quantizedStartStep ns ! m)) \<and>
          (\<forall>m\<le>k. (if m = 0 then -1 else quantizedEndStep (sort_key quantizedStartStep ns ! (m - 1)))
                    \<le> quantizedStartStep (sort_key quantizedStartStep ns ! m)) \<longrightarrow>
            snd (MelodyConverter_toTensor c ns) =
              Inl (PitchOutOfRange (pitch (sort_key quantizedStartStep ns ! k))))"
proof -
  let ?S = "sort_key quantizedStartStep ns"
  have len: "k < length ?S" using assms(1) by simp
  have out: "\<not> in_range c (?S ! k)" using assms(2) by (auto simp: in_range_def)
  from forEach_range_fails[OF len out, of "-1" "buffer1 (numSteps c)"]
  show ?thesis
    by (auto simp: MelodyConverter_toTensor_def Let_def split: sum.splits)
qed

theorem toTensor_out_of_range_throws_witness:
  "pitch (sort_key quantizedStartStep [Note_create 59 0 2, Note_create 60 1 3] ! 0)
     < minPitch melody_example \<and>
   isl (snd (MelodyConverter_toTensor melody_example [Note_create 59 0 2, Note_create 60 1 3])) \<and>
   snd (MelodyConverter_toTensor melody_example [Note_create 59 0 2, Note_create 60 1 3]) =
     Inl (PitchOutOfRange 59)"
proof -
  let ?ns = "[Note_create 59 0 2, Note_create 60 1 3]"
  have h1: "0 < length ?ns" by simp
  have h2: "pitch (sort_key quantizedStartStep ?ns ! 0) < minPitch melody_example" by code_simp
  have h3: "\<forall>m<0. in_range melody_example (sort_key quantizedStartStep ?ns ! m)" by simp
  have h4: "\<forall>m\<le>0. (if m = 0 then -1 else quantizedEndStep (sort_key quantizedStartStep ?ns ! (m - 1)))
                    \<le> quantizedStartStep (sort_key quantizedStartStep ?ns ! m)" by code_simp
  have p: "pitch (sort_key quantizedStartStep ?ns ! 0) = 59" by code_simp
  from toTensor_out_of_range_throws[OF h1 disjI1[OF h2]] h2 h3 h4 p show ?thesis
    by metis
qed

text \<open>
  C8 as stated fails: the second of the notes (60, 0, 2) and (59, 1, 3) has a pitch
  below \<open>minPitch\<close>, and \<open>toTensor\<close> throws \<open>NotMonophonic\<close>, the check it makes
  first.
\<close>

theorem toTensor_out_of_range_other_error:
  "pitch (sort_key quantizedStartStep [Note_create 60 0 2, Note_create 59 1 3] ! 1)
     < minPitch melody_example \<and>
   snd (MelodyConverter_toTensor melody_example [Note_create 60 0 2, Note_create 59 1 3])
     = Inl NotMonophonic \<and>
   snd (MelodyConverter_toTensor melody_example [Note_create 60 0 2, Note_create 59 1 3])
     \<noteq> Inl (PitchOutOfRange 59)"
  by code_simp

section \<open>MelodyConverter.toNoteSequence\<close>

lemma steps_done:
  "length labels \<le> s \<Longrightarrow> melody_steps c labels s (cur, acc) = acc @ close_at cur (int (length labels))"
  by (subst melody_steps.simps) (simp add: close_at_def split: option.splits)

lemma steps_next:
  "s < length labels \<Longrightarrow>
   melody_steps c labels s st = melody_steps c labels (Suc s) (melody_switch c s (labels ! s) st)"
  by (subst melody_steps.simps) simp

lemma switch_zero: "melody_switch c s 0 st = st"
  by (simp add: melody_switch_def split: prod.splits)

lemma switch_off: "melody_switch c s (Suc 0) (cur, acc) = (None, acc @ close_at cur (int s))"
  by (simp add: melody_switch_def close_at_def split: option.splits)

lemma switch_on:
  "2 \<le> l \<Longrightarrow> melody_switch c s l (cur, acc) =
     (Some (Note_create (int l - 2 + minPitch c) (int s) 0), acc @ close_at cur (int s))"
  by (simp add: melody_switch_def close_at_def FIRST_PITCH_def split: option.splits)

lemma steps_skip:
  assumes "s \<le> t" "t \<le> length labels" "\<forall>j. s \<le> j \<and> j < t \<longrightarrow> labels ! j = 0"
  shows "melody_steps c labels s st = melody_steps c labels t st"
  using assms
proof (induction rule: dec_induct)
  case base
  show ?case by simp
next
  case (step n)
  then have "melody_steps c labels s st = melody_steps c labels n st" by simp
  also have "\<dots> = melody_steps c labels (Suc n) st"
    using step by (simp add: steps_next switch_zero)
  finally show ?case .
qed

lemma steps_reach:
  "s \<le> length labels \<Longrightarrow> \<exists>st'. melody_steps c labels 0 st = melody_steps c labels s st'"
proof (induction s)
  case 0
  show ?case by blast
next
  case (Suc s)
  then obtain st' where "melody_steps c labels 0 st = melody_steps c labels s st'" by auto
  moreover have "melody_steps c labels s st' = melody_steps c labels (Suc s) (melody_switch c s (labels ! s) st')"
    using Suc.prems by (simp add: steps_next)
  ultimately show ?case by metis
qed

text \<open>
  C9. When the labels of the tensor (the arg-max of every row) have a note-on, a label
  of 2 or more, at step \<open>s\<close> and only the label 0 after it, the last note that
  \<open>toNoteSequence\<close> returns is the one opened at \<open>s\<close>, with the pitch of that
  label, and its end step is the number of rows of the tensor.
\<close>

theorem toNoteSequence_closes_open_note:
  assumes "s < length oh" "2 \<le> argMax (oh ! s)"
    and "\<forall>j. s < j \<and> j < length oh \<longrightarrow> argMax (oh ! j) = 0"
  shows "MelodyConverter_toNoteSequence c oh \<noteq> [] \<and>
         last (MelodyConverter_toNoteSequence c oh) =
           Note_create (int (argMax (oh ! s)) - 2 + minPitch c) (int s) (int (length oh))"
proof -
  let ?labels = "map argMax oh"
  have len: "s < length ?labels" using assms(1) by simp
  obtain cur acc where r: "melody_steps c ?labels 0 (None, []) = melody_steps c ?labels s (cur, acc)"
    using steps_reach[of s ?labels c "(None, [])"] len by (metis less_imp_le prod.collapse)
  let ?n = "Note_create (int (argMax (oh ! s)) - 2 + minPitch c) (int s) 0"
  have "melody_steps c ?labels s (cur, acc) = melody_steps c ?labels (Suc s) (Some ?n, acc @ close_at cur (int s))"
    using len assms(1,2) by (simp add: steps_next switch_on)
  also have "\<dots> = melody_steps c ?labels (length ?labels) (Some ?n, acc @ close_at cur (int s))"
    using len assms(3) by (intro steps_skip) auto
  also have "\<dots> = (acc @ close_at cur (int s)) @ close_at (Some ?n) (int (length ?labels))"
    by (rule steps_done) simp
  finally have "MelodyConverter_toNoteSequence c oh =
      (acc @ close_at cur (int s)) @ [Note_create (int (argMax (oh ! s)) - 2 + minPitch c) (int s) (int (length oh))]"
    using r by (simp add: MelodyConverter_toNoteSequence_def close_at_def Note_create_def)
  then show ?thesis by simp
qed

theorem toNoteSequence_closes_open_note_witness:
  "(0::nat) < length [[0, 0, 1, 0], [1 :: int, 0, 0, 0]] \<and>
   2 \<le> argMax ([[0, 0, 1, 0], [1 :: int, 0, 0, 0]] ! 0) \<and>
   MelodyConverter_toNoteSequence melody_example [[0, 0, 1, 0], [1 :: int, 0, 0, 0]] \<noteq> [] \<and>
   last (MelodyConverter_toNoteSequence melody_example [[0, 0, 1, 0], [1 :: int, 0, 0, 0]]) =
     Note_create 60 0 2"
proof -
  let ?oh = "[[0, 0, 1, 0], [1 :: int, 0, 0, 0]]"
  have h1: "0 < length ?oh" by simp
  have h2: "2 \<le> argMax (?oh ! 0)" by code_simp
  have h3: "\<forall>j. 0 < j \<and> j < length ?oh \<longrightarrow> argMax (?oh ! j) = 0"
    by (auto simp: less_Suc_eq argMax_def)
  have v: "int (argMax (?oh ! 0)) - 2 + minPitch melody_example = 60" by code_simp
  from toNoteSequence_closes_open_note[OF h1 h2 h3, of melody_example, unfolded v] h1 h2 show ?thesis
    by simp
qed

lemma chained_snoc:
  "chained e (ns @ [n]) \<longleftrightarrow>
     chained e ns \<and> (if ns = [] then e else quantizedEndStep (last ns)) \<le> quantizedStartStep n \<and>
     quantizedStartStep n < quantizedEndStep n"
  by (induction ns arbitrary: e) auto


lemma chained_member:
  "chained e ns \<Longrightarrow> n \<in> set ns \<Longrightarrow> e \<le> quantizedStartStep n \<and> quantizedStartStep n < quantizedEndStep n"
  by (induction ns arbitrary: e) force+

lemma chained_sorted: "chained e ns \<Longrightarrow> sorted (map quantizedStartStep ns)"
proof (induction ns arbitrary: e)
  case Nil
  show ?case by simp
next
  case (Cons n ns)
  then have "\<forall>m\<in>set ns. quantizedStartStep n \<le> quantizedStartStep m"
    using chained_member[of "quantizedEndStep n" ns] by fastforce
  moreover from Cons.prems have "chained (quantizedEndStep n) ns" by simp
  then have "sorted (map quantizedStartStep ns)" by (rule Cons.IH)
  ultimately show ?case by simp
qed

lemma chained_adjacent:
  "chained e ns \<Longrightarrow> Suc i < length ns \<Longrightarrow> quantizedEndStep (ns ! i) \<le> quantizedStartStep (ns ! Suc i)"
proof (induction ns arbitrary: e i)
  case Nil
  then show ?case by simp
next
  case (Cons n ns)
  show ?case
  proof (cases i)
    case 0
    with Cons.prems show ?thesis by (cases ns) auto
  next
    case (Suc i')
    with Cons.prems Cons.IH[of "quantizedEndStep n" i'] show ?thesis by simp
  qed
qed

lemma forEach_chained_ok:
  "chained e ns \<Longrightarrow> list_all (in_range c) ns \<Longrightarrow> lastEnd \<le> e \<Longrightarrow>
   \<exists>m. melody_forEach c ns lastEnd mel = Inr m"
proof (induction ns arbitrary: e lastEnd mel)
  case Nil
  show ?case by simp
next
  case (Cons n ns)
  from Cons.prems have "chained (quantizedEndStep n) ns" "list_all (in_range c) ns" by simp_all
  from Cons.IH[OF this order_refl] Cons.prems show ?case
    by (simp add: in_range_def)
qed

lemma inv_close:
  assumes "decode_inv c s (cur, acc)" and "s \<le> t"
  shows "chained 0 (acc @ close_at cur (int t))"
    and "list_all (in_range c) (acc @ close_at cur (int t))"
    and "last_end (acc @ close_at cur (int t)) \<le> int t"
  using assms
  by (auto simp: decode_inv_def close_at_def chained_snoc last_end_def in_range_def split: option.splits)

lemma inv_switch:
  assumes "decode_inv c s st" and "l < 2 \<or> int l \<le> maxPitch c - minPitch c + 2"
  shows "decode_inv c (Suc s) (melody_switch c s l st)"
proof -
  obtain cur acc where st: "st = (cur, acc)" by (cases st)
  note cl = inv_close[OF assms(1)[unfolded st] order_refl]
  consider "l = 0" | "l = Suc 0" | "2 \<le> l" by linarith
  then show ?thesis
  proof cases
    case 1
    with assms(1) show ?thesis
      by (auto simp: switch_zero decode_inv_def split: option.splits)
  next
    case 2
    with cl show ?thesis
      by (simp add: st switch_off decode_inv_def)
  next
    case 3
    with cl assms(2) show ?thesis
      by (simp add: st switch_on decode_inv_def in_range_def Note_create_def)
  qed
qed

lemma steps_inv:
  "decode_inv c s st \<Longrightarrow> s \<le> length labels \<Longrightarrow>
   \<forall>l\<in>set labels. l < 2 \<or> int l \<le> maxPitch c - minPitch c + 2 \<Longrightarrow>
   chained 0 (melody_steps c labels s st) \<and> list_all (in_range c) (melody_steps c labels s st)"
proof (induction c labels s st rule: melody_steps.induct)
  case (1 c labels s st)
  show ?case
  proof (cases "s < length labels")
    case True
    then have "labels ! s \<in> set labels" by simp
    with "1.prems"(3) have ok: "labels ! s < 2 \<or> int (labels ! s) \<le> maxPitch c - minPitch c + 2"
      by blast
    from "1.IH"[OF True inv_switch[OF "1.prems"(1) ok] _ "1.prems"(3)] True
    show ?thesis by (simp add: steps_next)
  next
    case False
    obtain cur acc where st: "st = (cur, acc)" by (cases st)
    from False "1.prems"(2) have eq: "s = length labels" by simp
    from inv_close(1,2)[OF "1.prems"(1)[unfolded st] order_refl] eq
    show ?thesis by (simp add: st steps_done)
  qed
qed

lemma argMax_from_bound: "mi < j \<Longrightarrow> argMax_from m mi j xs < j + length xs"
proof (induction xs arbitrary: m mi j)
  case Nil
  then show ?case by simp
next
  case (Cons x xs)
  have a: "argMax_from x j (Suc j) xs < Suc j + length xs" by (rule Cons.IH) simp
  have b: "argMax_from m mi (Suc j) xs < Suc j + length xs" by (rule Cons.IH) (use Cons.prems in simp)
  from a b show ?case by simp
qed

lemma argMax_bound: "row \<noteq> [] \<Longrightarrow> argMax row < length row"
  using argMax_from_bound[of 0 1] by (cases row) (auto simp: argMax_def)

lemma argMax_Nil: "argMax [] = 0"
  by (simp add: argMax_def)

text \<open>
  C10. For a converter made by the constructor and a tensor whose rows all have the
  converter's depth, the notes that \<open>toNoteSequence\<close> returns are in ascending order
  of start step, each ends after it starts and has its pitch within
  \<open>[minPitch, maxPitch]\<close>, each ends no later than the next one starts, and
  \<open>toTensor\<close> of the same converter accepts them: it returns a tensor.
\<close>

theorem toNoteSequence_well_formed:
  assumes "\<forall>row\<in>set oh. length row = nat (depth (MelodyConverter steps lo hi segs))"
  shows "sorted (map quantizedStartStep (MelodyConverter_toNoteSequence (MelodyConverter steps lo hi segs) oh)) \<and>
    (\<forall>n\<in>set (MelodyConverter_toNoteSequence (MelodyConverter steps lo hi segs) oh).
        quantizedStartStep n < quantizedEndStep n \<and> lo \<le> pitch n \<and> pitch n \<le> hi) \<and>
    (\<forall>i. Suc i < length (MelodyConverter_toNoteSequence (MelodyConverter steps lo hi segs) oh) \<longrightarrow>
        quantizedEndStep (MelodyConverter_toNoteSequence (MelodyConverter steps lo hi segs) oh ! i)
          \<le> quantizedStartStep (MelodyConverter_toNoteSequence (MelodyConverter steps lo hi segs) oh ! Suc i)) \<and>
    (\<exists>t. snd (MelodyConverter_toTensor (MelodyConverter steps lo hi segs)
               (MelodyConverter_toNoteSequence (MelodyConverter steps lo hi segs) oh)) = Inr t)"
proof -
  let ?c = "MelodyConverter steps lo hi segs"
  let ?out = "MelodyConverter_toNoteSequence ?c oh"
  have c: "minPitch ?c = lo" "maxPitch ?c = hi" "depth ?c = hi - lo + 3"
    by (simp_all add: MelodyConverter_def)
  have labels: "\<forall>l\<in>set (map argMax oh). l < 2 \<or> int l \<le> maxPitch ?c - minPitch ?c + 2"
  proof
    fix l assume "l \<in> set (map argMax oh)"
    then obtain row where row: "row \<in> set oh" "l = argMax row" by auto
    show "l < 2 \<or> int l \<le> maxPitch ?c - minPitch ?c + 2"
    proof (cases "row = []")
      case True
      with row show ?thesis by (simp add: argMax_Nil)
    next
      case False
      from argMax_bound[OF this] row assms have "l < nat (hi - lo + 3)" by (simp add: c)
      then show ?thesis unfolding c by linarith
    qed
  qed
  have inv0: "decode_inv ?c 0 (None, [])"
    by (simp add: decode_inv_def last_end_def)
  from steps_inv[OF inv0 _ labels]
  have ch: "chained 0 ?out" and rg: "list_all (in_range ?c) ?out"
    by (simp_all add: MelodyConverter_toNoteSequence_def)
  have s: "sorted (map quantizedStartStep ?out)" by (rule chained_sorted[OF ch])
  have m: "\<forall>n\<in>set ?out. quantizedStartStep n < quantizedEndStep n \<and> lo \<le> pitch n \<and> pitch n \<le> hi"
    using chained_member[OF ch] rg by (auto simp: list_all_iff in_range_def c)
  have a: "\<forall>i. Suc i < length ?out \<longrightarrow> quantizedEndStep (?out ! i) \<le> quantizedStartStep (?out ! Suc i)"
    using chained_adjacent[OF ch] by blast
  have "\<exists>mel. melody_forEach ?c ?out (-1) (buffer1 (numSteps ?c)) = Inr mel"
    by (rule forEach_chained_ok[OF ch rg]) simp
  then have t: "\<exists>t. snd (MelodyConverter_toTensor ?c ?out) = Inr t"
    by (auto simp: MelodyConverter_toTensor_def Let_def sort_key_id_if_sorted[OF s])
  from s m a t show ?thesis by blast
qed

theorem toNoteSequence_well_formed_witness:
  "length [0, 0, 1, 0 :: int] = nat (depth (MelodyConverter 4 60 61 None)) \<and>
   sorted (map quantizedStartStep
     (MelodyConverter_toNoteSequence (MelodyConverter 4 60 61 None) [[0, 0, 1, 0 :: int]])) \<and>
   (\<exists>t. snd (MelodyConverter_toTensor (MelodyConverter 4 60 61 None)
               (MelodyConverter_toNoteSequence (MelodyConverter 4 60 61 None) [[0, 0, 1, 0 :: int]])) = Inr t)"
proof -
  have h: "\<forall>row\<in>set [[0, 0, 1, 0 :: int]]. length row = nat (depth (MelodyConverter 4 60 61 None))"
    by (simp add: MelodyConverter_def)
  have l: "length [0, 0, 1, 0 :: int] = nat (depth (MelodyConverter 4 60 61 None))"
    by (simp add: MelodyConverter_def)
  from toNoteSequence_well_formed[OF h] l show ?thesis by blast
qed

section \<open>DrumsConverter.toTensor\<close>

lemma set1_length [simp]: "length (set1 v i row) = length row"
  by (simp add: set1_def)

lemma set1_nth:
  "j < length row \<Longrightarrow> set1 v i row ! j = (if i = int j then v else row ! j)"
  by (auto simp: set1_def nth_list_update)

lemma fold_register:
  "fold (\<lambda>p m'. m'(p \<mapsto> c)) cl m q = Some k \<Longrightarrow> m q = Some k \<or> k = c"
proof (induction cl arbitrary: m)
  case Nil
  then show ?case by simp
next
  case (Cons p cl)
  from Cons.IH[of "m(p \<mapsto> c)"] Cons.prems have "(m(p \<mapsto> c)) q = Some k \<or> k = c"
    by simp
  then show ?case by (auto split: if_splits)
qed

lemma register_classes_range:
  "register_classes cls c m q = Some k \<Longrightarrow> m q = Some k \<or> (c \<le> k \<and> k < c + length cls)"
proof (induction cls arbitrary: c m)
  case Nil
  then show ?case by simp
next
  case (Cons cl cls)
  from Cons.IH[of "Suc c" "fold (\<lambda>p m'. m'(p \<mapsto> c)) cl m"] Cons.prems
  have "fold (\<lambda>p m'. m'(p \<mapsto> c)) cl m q = Some k \<or> (Suc c \<le> k \<and> k < Suc c + length cls)"
    by simp
  then show ?case
    using fold_register[of c cl m q k] by auto
qed

lemma DrumsConverter_table_ok: "table_ok (DrumsConverter steps segs classes)"
  using register_classes_range[of _ 0 Map.empty]
  by (fastforce simp: table_ok_def DrumsConverter_def Let_def)

lemma flat_index_unique:
  fixes r a w j k :: int
  assumes "0 \<le> j" "j < w" "0 \<le> k" "k < w" "r * w + j = a * w + k"
  shows "r = a \<and> j = k"
proof -
  have "(r * w + j) div w = r" using assms(1,2) by (simp add: div_pos_pos_trivial)
  moreover have "(a * w + k) div w = a" using assms(3,4) by (simp add: div_pos_pos_trivial)
  ultimately have "r = a" using assms(5) by simp
  with assms(5) show ?thesis by simp
qed

lemma cell_in_buffer:
  fixes a k rows cols :: nat
  assumes "a < rows" "k < cols"
  shows "a * cols + k < rows * cols"
proof -
  have "a * cols + k < Suc a * cols" using assms(2) by simp
  also have "\<dots> \<le> rows * cols" using assms(1) by (intro mult_le_mono1) simp
  finally show ?thesis .
qed

lemma toTensor2_nth:
  assumes "length buf = rows * cols" "a < rows" "k < cols"
  shows "toTensor2 rows cols buf ! a ! k = buf ! (a * cols + k)"
proof -
  have "a * cols + k < length buf" using cell_in_buffer[OF assms(2,3)] assms(1) by simp
  then show ?thesis using assms(2,3) by (simp add: toTensor2_def)
qed

lemma toTensor2_shaped:
  assumes "length buf = rows * cols"
  shows "shaped rows cols (toTensor2 rows cols buf)"
proof -
  have "length (take cols (drop (r * cols) buf)) = cols" if "r < rows" for r
  proof -
    have "Suc r * cols \<le> rows * cols" using that by (intro mult_le_mono1) simp
    then show ?thesis using assms by simp
  qed
  then show ?thesis
    by (simp add: shaped_def toTensor2_def list_all_iff)
qed

lemma set2_length [simp]: "length (set2 v r col cols buf) = length buf"
  by (simp add: set2_def split: option.splits)

lemma set_finals_length [simp]: "length (set_finals n cols i buf) = length buf"
proof (induction n cols i buf rule: set_finals.induct)
  case (1 n cols i buf)
  show ?case
  proof (cases "i < n")
    case True
    with "1.IH"[OF True] show ?thesis by (subst set_finals.simps) simp
  next
    case False
    then show ?thesis by (subst set_finals.simps) simp
  qed
qed

lemma drums_forEach_length [simp]: "length (drums_forEach c ns buf) = length buf"
  by (induction ns arbitrary: buf) simp_all

lemma set2_nth:
  "i < length buf \<Longrightarrow>
   set2 v r (Some j) cols buf ! i = (if r * int cols + j = int i then v else buf ! i)"
  by (simp add: set2_def set1_nth)

lemma set2_None [simp]: "set2 v r None cols buf = buf"
  by (simp add: set2_def)

text \<open>A write at column -1 never lands in a class column.\<close>

lemma final_write_misses_class:
  fixes a k cols :: nat
  assumes "Suc k < cols"
  shows "r * int cols + (-1) \<noteq> int (a * cols + k)"
proof
  assume "r * int cols + (-1) = int (a * cols + k)"
  then have "(r - 1) * int cols + (int cols - 1) = int a * int cols + int k"
    by (simp add: algebra_simps)
  from flat_index_unique[OF _ _ _ _ this] assms show False by simp
qed

lemma class_write_hits:
  fixes a k k' cols :: nat
  assumes "k < cols" "k' < cols"
  shows "r * int cols + int k' = int (a * cols + k) \<longleftrightarrow> r = int a \<and> k' = k"
proof
  assume "r * int cols + int k' = int (a * cols + k)"
  then have "r * int cols + int k' = int a * int cols + int k" by simp
  from flat_index_unique[OF _ _ _ _ this] assms show "r = int a \<and> k' = k" by simp
next
  assume "r = int a \<and> k' = k"
  then show "r * int cols + int k' = int (a * cols + k)" by simp
qed

lemma set_finals_class_cell:
  "Suc k < cols \<Longrightarrow> a * cols + k < length buf \<Longrightarrow>
   set_finals n cols i buf ! (a * cols + k) = buf ! (a * cols + k)"
proof (induction n cols i buf rule: set_finals.induct)
  case (1 n cols i buf)
  show ?case
  proof (cases "i < n")
    case True
    have "set_finals n cols i buf ! (a * cols + k) =
          set_finals n cols (Suc i) (set2 1 (int i) (Some (-1)) cols buf) ! (a * cols + k)"
      using True by (subst set_finals.simps) simp
    also have "\<dots> = set2 1 (int i) (Some (-1)) cols buf ! (a * cols + k)"
      using "1.prems" by (intro "1.IH"[OF True]) simp_all
    also have "\<dots> = buf ! (a * cols + k)"
      using "1.prems" final_write_misses_class[OF "1.prems"(1), of "int i" a]
      by (simp add: set2_nth)
    finally show ?thesis .
  next
    case False
    then show ?thesis by (subst set_finals.simps) simp
  qed
qed


lemma drums_forEach_class_cell:
  assumes "table_ok c" and "k < length (pitchClasses c)" and w: "w = length (pitchClasses c) + 1"
  shows "a * w + k < length buf \<Longrightarrow>
    drums_forEach c ns buf ! (a * w + k) =
      (if \<exists>n\<in>set ns. quantizedStartStep n = int a \<and> pitchToClass c (pitch n) = Some k then 1
       else buf ! (a * w + k))"
proof (induction ns arbitrary: buf)
  case Nil
  show ?case by simp
next
  case (Cons n ns)
  let ?i = "a * w + k"
  let ?b1 = "set2 1 (quantizedStartStep n) (map_option int (pitchToClass c (pitch n))) w buf"
  let ?b2 = "set2 0 (quantizedStartStep n) (Some (-1)) w ?b1"
  have kw: "Suc k < w" "k < w" using assms(2) w by simp_all
  have c2: "?b2 ! ?i = ?b1 ! ?i"
    using Cons.prems final_write_misses_class[OF kw(1), of "quantizedStartStep n" a]
    by (simp add: set2_nth)
  have c1: "?b1 ! ?i =
     (if quantizedStartStep n = int a \<and> pitchToClass c (pitch n) = Some k then 1 else buf ! ?i)"
  proof (cases "pitchToClass c (pitch n)")
    case None
    then show ?thesis by simp
  next
    case (Some k')
    with assms(1) have "k' < length (pitchClasses c)" by (auto simp: table_ok_def)
    then have "k' < w" using w by simp
    from class_write_hits[OF kw(2) this, of "quantizedStartStep n" a] Some Cons.prems
    show ?thesis by (simp add: set2_nth)
  qed
  have "drums_forEach c (n # ns) buf ! ?i = drums_forEach c ns ?b2 ! ?i" by (simp add: w)
  also have "\<dots> = (if \<exists>m\<in>set ns. quantizedStartStep m = int a \<and> pitchToClass c (pitch m) = Some k then 1
       else ?b2 ! ?i)"
    using Cons.prems by (intro Cons.IH) simp
  finally show ?case using c2 c1 by auto
qed

lemma toTensor_roll:
  "DrumsConverter_toTensor (DrumsConverter steps segs classes) ns = Inr roll \<Longrightarrow>
   roll = toTensor2 steps (length (pitchClasses (DrumsConverter steps segs classes)) + 1)
            (drums_forEach (DrumsConverter steps segs classes) ns
               (set_finals steps (length (pitchClasses (DrumsConverter steps segs classes)) + 1) 0
                  (buffer2 steps (length (pitchClasses (DrumsConverter steps segs classes)) + 1))))"
proof -
  have "drumSteps (DrumsConverter steps segs classes) = steps"
    by (simp add: DrumsConverter_def Let_def)
  then show "DrumsConverter_toTensor (DrumsConverter steps segs classes) ns = Inr roll \<Longrightarrow> ?thesis"
    by (auto simp: DrumsConverter_toTensor_def)
qed

lemma toTensor_shaped:
  assumes "DrumsConverter_toTensor (DrumsConverter steps segs classes) ns = Inr roll"
  shows "shaped steps (Suc (length (pitchClasses (DrumsConverter steps segs classes)))) roll"
  unfolding toTensor_roll[OF assms] Suc_eq_plus1
  by (rule toTensor2_shaped) (simp add: buffer2_def)

lemma toTensor_class_cell:
  assumes "DrumsConverter_toTensor (DrumsConverter steps segs classes) ns = Inr roll"
    and "a < steps" and "k < length (pitchClasses (DrumsConverter steps segs classes))"
  shows "roll ! a ! k =
           (if \<exists>n\<in>set ns. quantizedStartStep n = int a \<and>
                 pitchToClass (DrumsConverter steps segs classes) (pitch n) = Some k
            then 1 else 0)"
proof -
  let ?c = "DrumsConverter steps segs classes"
  define w where "w = length (pitchClasses ?c) + 1"
  define init where "init = set_finals steps w 0 (buffer2 steps w)"
  have kw: "k < w" "Suc k < w" using assms(3) by (simp_all add: w_def)
  have len: "length init = steps * w" by (simp add: init_def buffer2_def)
  have idx: "a * w + k < steps * w" by (rule cell_in_buffer[OF assms(2) kw(1)])
  have "init ! (a * w + k) = buffer2 steps w ! (a * w + k)"
    unfolding init_def by (rule set_finals_class_cell[OF kw(2)]) (use idx in \<open>simp add: buffer2_def\<close>)
  then have init0: "init ! (a * w + k) = 0"
    using idx by (simp add: buffer2_def)
  have roll: "roll = toTensor2 steps w (drums_forEach ?c ns init)"
    using toTensor_roll[OF assms(1)] by (simp only: w_def init_def)
  have "roll ! a ! k = drums_forEach ?c ns init ! (a * w + k)"
    unfolding roll by (rule toTensor2_nth[OF _ assms(2) kw(1)]) (simp add: len)
  also have "\<dots> = (if \<exists>n\<in>set ns. quantizedStartStep n = int a \<and> pitchToClass ?c (pitch n) = Some k
            then 1 else init ! (a * w + k))"
    by (rule drums_forEach_class_cell[OF DrumsConverter_table_ok assms(3) w_def]) (use idx len in simp)
  finally show ?thesis using init0 by simp
qed

lemma final_write_hits:
  fixes a cols :: nat
  assumes "0 < cols"
  shows "r * int cols + (-1) = int (a * cols + (cols - 1)) \<longleftrightarrow> r = int a + 1"
proof
  assume "r * int cols + (-1) = int (a * cols + (cols - 1))"
  then have "(r - 1) * int cols + (int cols - 1) = int a * int cols + (int cols - 1)"
    using assms by (simp add: algebra_simps of_nat_diff)
  from flat_index_unique[OF _ _ _ _ this] assms show "r = int a + 1" by simp
next
  assume "r = int a + 1"
  then show "r * int cols + (-1) = int (a * cols + (cols - 1))"
    using assms by (simp add: algebra_simps of_nat_diff)
qed

lemma set_finals_final_cell:
  "0 < cols \<Longrightarrow> a * cols + (cols - 1) < length buf \<Longrightarrow>
   set_finals n cols i buf ! (a * cols + (cols - 1)) =
     (if i \<le> Suc a \<and> Suc a < n then 1 else buf ! (a * cols + (cols - 1)))"
proof (induction n cols i buf rule: set_finals.induct)
  case (1 n cols i buf)
  let ?j = "a * cols + (cols - 1)"
  show ?case
  proof (cases "i < n")
    case True
    have "set_finals n cols i buf ! ?j =
          set_finals n cols (Suc i) (set2 1 (int i) (Some (-1)) cols buf) ! ?j"
      using True by (subst set_finals.simps) simp
    also have "\<dots> = (if Suc i \<le> Suc a \<and> Suc a < n then 1
                     else set2 1 (int i) (Some (-1)) cols buf ! ?j)"
      using "1.prems" by (intro "1.IH"[OF True]) simp_all
    also have "set2 1 (int i) (Some (-1)) cols buf ! ?j = (if i = Suc a then 1 else buf ! ?j)"
      using "1.prems" final_write_hits[OF "1.prems"(1), of "int i" a]
      by (simp add: set2_nth)
    finally show ?thesis using True by auto
  next
    case False
    then show ?thesis by (subst set_finals.simps) simp
  qed
qed

lemma drums_forEach_final_cell:
  assumes "table_ok c" and w: "w = length (pitchClasses c) + 1"
  shows "a * w + (w - 1) < length buf \<Longrightarrow>
    drums_forEach c ns buf ! (a * w + (w - 1)) =
      (if \<exists>n\<in>set ns. quantizedStartStep n = int a + 1 then 0 else buf ! (a * w + (w - 1)))"
proof (induction ns arbitrary: buf)
  case Nil
  show ?case by simp
next
  case (Cons n ns)
  let ?i = "a * w + (w - 1)"
  let ?b1 = "set2 1 (quantizedStartStep n) (map_option int (pitchToClass c (pitch n))) w buf"
  let ?b2 = "set2 0 (quantizedStartStep n) (Some (-1)) w ?b1"
  have w0: "0 < w" "w - 1 < w" using w by simp_all
  have c2: "?b2 ! ?i = (if quantizedStartStep n = int a + 1 then 0 else ?b1 ! ?i)"
    using Cons.prems final_write_hits[OF w0(1), of "quantizedStartStep n" a]
    by (simp add: set2_nth)
  have c1: "?b1 ! ?i = buf ! ?i"
  proof (cases "pitchToClass c (pitch n)")
    case None
    then show ?thesis by simp
  next
    case (Some k')
    with assms(1) have "k' < length (pitchClasses c)" by (auto simp: table_ok_def)
    then have k': "k' < w" "k' \<noteq> w - 1" using w by simp_all
    from class_write_hits[OF w0(2) k'(1), of "quantizedStartStep n" a] k'(2) Some Cons.prems
    show ?thesis by (simp add: set2_nth)
  qed
  have "drums_forEach c (n # ns) buf ! ?i = drums_forEach c ns ?b2 ! ?i" by (simp add: w)
  also have "\<dots> = (if \<exists>m\<in>set ns. quantizedStartStep m = int a + 1 then 0 else ?b2 ! ?i)"
    using Cons.prems by (intro Cons.IH) simp
  finally show ?case using c2 c1 by auto
qed

lemma toTensor_final_cell:
  assumes "DrumsConverter_toTensor (DrumsConverter steps segs classes) ns = Inr roll"
    and "a < steps"
  shows "roll ! a ! length (pitchClasses (DrumsConverter steps segs classes)) =
           (if Suc a < steps \<and> \<not> (\<exists>n\<in>set ns. quantizedStartStep n = int a + 1) then 1 else 0)"
proof -
  let ?c = "DrumsConverter steps segs classes"
  define w where "w = length (pitchClasses ?c) + 1"
  define init where "init = set_finals steps w 0 (buffer2 steps w)"
  have w0: "0 < w" "w - 1 < w" and C: "length (pitchClasses ?c) = w - 1" by (simp_all add: w_def)
  have len: "length init = steps * w" by (simp add: init_def buffer2_def)
  have idx: "a * w + (w - 1) < steps * w" by (rule cell_in_buffer[OF assms(2) w0(2)])
  have "init ! (a * w + (w - 1)) =
         (if 0 \<le> Suc a \<and> Suc a < steps then 1 else buffer2 steps w ! (a * w + (w - 1)))"
    unfolding init_def by (rule set_finals_final_cell[OF w0(1)]) (use idx in \<open>simp add: buffer2_def\<close>)
  then have init1: "init ! (a * w + (w - 1)) = (if Suc a < steps then 1 else 0)"
    using idx by (simp add: buffer2_def)
  have roll: "roll = toTensor2 steps w (drums_forEach ?c ns init)"
    using toTensor_roll[OF assms(1)] by (simp only: w_def init_def)
  have "roll ! a ! (w - 1) = drums_forEach ?c ns init ! (a * w + (w - 1))"
    unfolding roll by (rule toTensor2_nth[OF _ assms(2) w0(2)]) (simp add: len)
  also have "\<dots> = (if \<exists>n\<in>set ns. quantizedStartStep n = int a + 1 then 0 else init ! (a * w + (w - 1)))"
    by (rule drums_forEach_final_cell[OF DrumsConverter_table_ok w_def]) (use idx len in simp)
  finally show ?thesis unfolding C using init1 by simp
qed

text \<open>
  C3, as amended. \<open>DrumsConverter.toTensor\<close> throws for no note sequence: it always
  returns a tensor. In it a class cell is 1 exactly when some note starting at that step
  has a pitch entered for that class; a note whose pitch is in no class sets no class
  cell, and no error is raised for it.
\<close>

theorem drums_toTensor_never_throws:
  "\<exists>roll. DrumsConverter_toTensor (DrumsConverter steps segs classes) ns = Inr roll \<and>
     (\<forall>a<steps. \<forall>k<length (pitchClasses (DrumsConverter steps segs classes)).
        roll ! a ! k =
          (if \<exists>n\<in>set ns. quantizedStartStep n = int a \<and>
                pitchToClass (DrumsConverter steps segs classes) (pitch n) = Some k
           then 1 else 0))"
proof -
  let ?c = "DrumsConverter steps segs classes"
  obtain roll where r: "DrumsConverter_toTensor ?c ns = Inr roll"
    by (simp add: DrumsConverter_toTensor_def)
  from toTensor_class_cell[OF r] r show ?thesis by blast
qed

theorem drums_toTensor_never_throws_witness:
  "pitchToClass drums_example 99 = None \<and>
   (\<exists>roll. DrumsConverter_toTensor drums_example [Note_create 99 0 1] = Inr roll \<and>
      roll ! 0 ! 0 = 0 \<and> roll ! 0 ! 1 = 0)"
proof -
  let ?c = "DrumsConverter 2 None (Some [[36], [38]])"
  from drums_toTensor_never_throws[of 2 None "Some [[36], [38]]" "[Note_create 99 0 1]"]
  obtain roll where r: "DrumsConverter_toTensor ?c [Note_create 99 0 1] = Inr roll"
    and cells: "\<forall>a<2. \<forall>k<length (pitchClasses ?c). roll ! a ! k =
          (if \<exists>n\<in>set [Note_create 99 0 1]. quantizedStartStep n = int a \<and>
                pitchToClass ?c (pitch n) = Some k
           then 1 else 0)"
    by blast
  have len: "length (pitchClasses ?c) = 2" by (simp add: DrumsConverter_def)
  have p: "pitchToClass ?c 99 = None" by (simp add: DrumsConverter_def)
  from cells len p have "roll ! 0 ! 0 = 0" "roll ! 0 ! 1 = 0"
    by (simp_all add: Note_create_def)
  with r p show ?thesis
    unfolding drums_example_def by blast
qed

text \<open>
  C3 as stated fails: pitch 99 is in no class of the table [[36], [38]], and
  \<open>toTensor\<close> returns a tensor for a note of that pitch.
\<close>

theorem drums_toTensor_unknown_pitch_returns:
  "pitchToClass drums_example 99 = None \<and>
   DrumsConverter_toTensor drums_example [Note_create 99 0 1] = Inr [[0, 0, 1], [0, 0, 0]] \<and>
   \<not> isl (DrumsConverter_toTensor drums_example [Note_create 99 0 1])"
  by code_simp

text \<open>
  C6. The final column is documented as the NOR of the class columns of its row, and
  the code departs from that. The write \<open>drumRoll.set(1, i, -1)\<close> lands in the final
  column of row \<open>i - 1\<close>, and \<open>drumRoll.set(0, start, -1)\<close> clears the final column of
  the row before the note's: the final column of a row is 1 exactly when a next row
  exists and no note starts there (lemma \<open>toTensor_final_cell\<close>). With the table
  [[36], [38]] and two steps, the empty sequence gives [[0, 0, 1], [0, 0, 0]]: in row 1
  the final column is 0 while both class columns are 0. With three steps and the note
  (36, 1, 2), row 0 has final column 0 and no class set, row 1 has final column 1 and
  class 0 set.
\<close>

theorem drums_final_column_shifted:
  "DrumsConverter_toTensor drums_example [] = Inr [[0, 0, 1], [0, 0, 0]] \<and>
   [[0, 0, 1], [0, 0, 0 :: int]] ! 1 ! length (pitchClasses drums_example) = 0 \<and>
   [[0, 0, 1], [0, 0, 0 :: int]] ! 1 ! 0 = 0 \<and> [[0, 0, 1], [0, 0, 0 :: int]] ! 1 ! 1 = 0 \<and>
   DrumsConverter_toTensor (DrumsConverter 3 None (Some [[36], [38]])) [Note_create 36 1 2] =
     Inr [[0, 0, 0], [1, 0, 1], [0, 0, 0]]"
  by code_simp

section \<open>DrumRollConverter.toNoteSequence\<close>

lemma roll_cells_notes:
  "p + length xs \<le> length (pitchClasses c) \<Longrightarrow>
   roll_cells c s xs p acc =
     Inr (acc @ map (unit_note c s) (filter (\<lambda>q. xs ! (q - p) \<noteq> 0) [p..<p + length xs]))"
proof (induction xs arbitrary: p acc)
  case Nil
  show ?case by simp
next
  case (Cons x xs)
  have up: "[p..<p + length (x # xs)] = p # [Suc p..<Suc p + length xs]"
    by (subst upt_rec) simp
  have fl: "filter (\<lambda>q. (x # xs) ! (q - p) \<noteq> 0) [Suc p..<Suc p + length xs] =
            filter (\<lambda>q. xs ! (q - Suc p) \<noteq> 0) [Suc p..<Suc p + length xs]"
  proof (rule filter_cong[OF refl])
    fix q assume "q \<in> set [Suc p..<Suc p + length xs]"
    then have "q - p = Suc (q - Suc p)" by auto
    then show "((x # xs) ! (q - p) \<noteq> 0) = (xs ! (q - Suc p) \<noteq> 0)" by simp
  qed
  from Cons.prems have le: "Suc p + length xs \<le> length (pitchClasses c)" "p < length (pitchClasses c)"
    by simp_all
  have step: "roll_cells c s (x # xs) p acc =
      roll_cells c s xs (Suc p) (acc @ (if x \<noteq> 0 then [unit_note c s p] else []))"
    using le(2) by (simp add: unit_note_def)
  have rhs: "map (unit_note c s) (filter (\<lambda>q. (x # xs) ! (q - p) \<noteq> 0) [p..<p + length (x # xs)]) =
      (if x \<noteq> 0 then [unit_note c s p] else []) @
      map (unit_note c s) (filter (\<lambda>q. xs ! (q - Suc p) \<noteq> 0) [Suc p..<Suc p + length xs])"
    unfolding up filter.simps fl by (simp del: upt_Suc)
  show ?case
    unfolding step rhs Cons.IH[OF le(1)] by simp
qed

lemma roll_rows_notes:
  "list_all (\<lambda>row. length row = w) rows \<Longrightarrow> w \<le> length (pitchClasses c) \<Longrightarrow>
   roll_rows c rows s acc =
     Inr (acc @ concat (map (\<lambda>i. map (unit_note c (s + i)) (filter (\<lambda>k. rows ! i ! k \<noteq> 0) [0..<w]))
                          [0..<length rows]))"
proof (induction rows arbitrary: s acc)
  case Nil
  show ?case by simp
next
  case (Cons row rows)
  from Cons.prems have len: "length row = w" and rest: "list_all (\<lambda>row. length row = w) rows"
    by simp_all
  have cells: "roll_cells c s row 0 acc =
      Inr (acc @ map (unit_note c s) (filter (\<lambda>k. row ! k \<noteq> 0) [0..<w]))"
    using roll_cells_notes[of 0 row c s acc] len Cons.prems(2) by simp
  have up: "[0..<length (row # rows)] = 0 # map Suc [0..<length rows]"
    by (simp add: upt_conv_Cons map_Suc_upt del: upt_Suc)
  show ?case
    unfolding up
    by (simp add: cells Cons.IH[OF rest Cons.prems(2)] comp_def)
qed

text \<open>
  C2, as amended. \<open>DrumRollConverter.toNoteSequence\<close> applied to the class columns of
  the tensor of \<open>toTensor\<close> (every row without its final cell) returns, row by row and
  class by class, exactly one note for every nonzero cell, from that step to the next and
  with the canonical pitch of the class. For the table [[36], [38]], two steps and the
  note (38, 1, 2), the class columns of the tensor of \<open>toTensor\<close> are [[0, 0], [0, 1]],
  and decoding [[0, 0], [0, 1]] returns exactly the note (38, 1, 2).
\<close>

theorem drumroll_decodes_stripped_roll:
  "(DrumsConverter_toTensor (DrumsConverter steps segs classes) ns = Inr roll \<longrightarrow>
      DrumRollConverter_toNoteSequence (DrumsConverter steps segs classes) (map butlast roll) =
        Inr (concat (map (\<lambda>a. map (unit_note (DrumsConverter steps segs classes) a)
                               (filter (\<lambda>k. roll ! a ! k \<noteq> 0)
                                  [0..<length (pitchClasses (DrumsConverter steps segs classes))]))
                      [0..<steps]))) \<and>
   (\<exists>roll. DrumsConverter_toTensor drums_example [Note_create 38 1 2] = Inr roll \<and>
      map butlast roll = [[0, 0], [0, 1]]) \<and>
   DrumRollConverter_toNoteSequence drums_example [[0, 0], [0, 1]] = Inr [Note_create 38 1 2]"
proof -
  let ?c = "DrumsConverter steps segs classes"
  let ?C = "length (pitchClasses ?c)"
  have gen: "DrumRollConverter_toNoteSequence ?c (map butlast roll) =
        Inr (concat (map (\<lambda>a. map (unit_note ?c a) (filter (\<lambda>k. roll ! a ! k \<noteq> 0) [0..<?C])) [0..<steps]))"
    if r: "DrumsConverter_toTensor ?c ns = Inr roll"
  proof -
    have sh: "shaped steps (Suc ?C) roll"
      by (rule toTensor_shaped[OF r])
    then have len: "length roll = steps" and rows: "list_all (\<lambda>row. length row = Suc ?C) roll"
      by (simp_all add: shaped_def)
    have all: "list_all (\<lambda>row. length row = ?C) (map butlast roll)"
      using rows by (simp add: list_all_iff)
    have eq: "map (\<lambda>i. map (unit_note ?c (0 + i)) (filter (\<lambda>k. map butlast roll ! i ! k \<noteq> 0) [0..<?C]))
                [0..<length (map butlast roll)] =
              map (\<lambda>a. map (unit_note ?c a) (filter (\<lambda>k. roll ! a ! k \<noteq> 0) [0..<?C])) [0..<steps]"
    proof (rule map_cong)
      show "[0..<length (map butlast roll)] = [0..<steps]" by (simp add: len)
    next
      fix a assume "a \<in> set [0..<steps]"
      then have a: "a < length roll" by (simp add: len)
      then have la: "length (roll ! a) = Suc ?C" using rows by (simp add: list_all_length)
      have "filter (\<lambda>k. map butlast roll ! a ! k \<noteq> 0) [0..<?C] = filter (\<lambda>k. roll ! a ! k \<noteq> 0) [0..<?C]"
        by (rule filter_cong[OF refl]) (use a la in \<open>simp add: nth_butlast\<close>)
      then show "map (unit_note ?c (0 + a)) (filter (\<lambda>k. map butlast roll ! a ! k \<noteq> 0) [0..<?C]) =
                 map (unit_note ?c a) (filter (\<lambda>k. roll ! a ! k \<noteq> 0) [0..<?C])"
        by simp
    qed
    show ?thesis
      unfolding DrumRollConverter_toNoteSequence_def
      by (simp only: roll_rows_notes[OF all order_refl] eq append_Nil)
  qed
  have "DrumsConverter_toTensor drums_example [Note_create 38 1 2] = Inr [[0, 0, 0], [0, 1, 0]]"
    by code_simp
  then have ex1: "\<exists>roll. DrumsConverter_toTensor drums_example [Note_create 38 1 2] = Inr roll \<and>
      map butlast roll = [[0, 0], [0, 1]]"
    by simp
  have ex2: "DrumRollConverter_toNoteSequence drums_example [[0, 0], [0, 1]] = Inr [Note_create 38 1 2]"
    by code_simp
  from gen ex1 ex2 show ?thesis by blast
qed

theorem drumroll_decodes_stripped_roll_witness:
  "\<exists>roll. DrumsConverter_toTensor drums_example [Note_create 38 1 2] = Inr roll \<and>
     DrumRollConverter_toNoteSequence drums_example (map butlast roll) = Inr [Note_create 38 1 2]"
proof -
  let ?c = "DrumsConverter 2 None (Some [[36], [38]])"
  let ?roll = "[[0, 0, 0], [0, 1, 0 :: int]]"
  have h: "DrumsConverter_toTensor ?c [Note_create 38 1 2] = Inr ?roll" by code_simp
  have e: "concat (map (\<lambda>a. map (unit_note ?c a) (filter (\<lambda>k. ?roll ! a ! k \<noteq> 0)
              [0..<length (pitchClasses ?c)])) [0..<2]) = [Note_create 38 1 2]"
    by code_simp
  from drumroll_decodes_stripped_roll[THEN conjunct1, rule_format, OF h] h show ?thesis
    unfolding e drums_example_def by blast
qed

text \<open>
  C2 as stated fails: given the tensor of \<open>toTensor\<close> as it is, the decoder does not
  pass over the final column. For the table [[36], [38]], two steps and the note
  (38, 0, 1), \<open>toTensor\<close> gives [[0, 1, 1], [0, 0, 0]]; in row 0 the final cell is 1,
  there is no class 2, and \<open>this.pitchClasses[2][0]\<close> throws. For the note (38, 1, 2)
  of the claim, \<open>toTensor\<close> gives [[0, 0, 0], [0, 1, 0]], not [[0, 0, 1], [0, 1, 0]].
\<close>

theorem drumroll_throws_on_raw_roll:
  "DrumsConverter_toTensor drums_example [Note_create 38 0 1] = Inr [[0, 1, 1], [0, 0, 0]] \<and>
   DrumRollConverter_toNoteSequence drums_example [[0, 1, 1], [0, 0, 0]] = Inl TypeError \<and>
   DrumsConverter_toTensor drums_example [Note_create 38 1 2] = Inr [[0, 0, 0], [0, 1, 0]] \<and>
   DrumsConverter_toTensor drums_example [Note_create 38 1 2] \<noteq> Inr [[0, 0, 1], [0, 1, 0]]"
  by code_simp

section \<open>MelodyConverter: the round trip\<close>

lemma argMax_from_char:
  "argMax_from m mi j xs = i \<Longrightarrow>
   (i = mi \<and> (\<forall>x\<in>set xs. x \<le> m)) \<or> (j \<le> i \<and> i < j + length xs \<and> m < xs ! (i - j))"
proof (induction xs arbitrary: m mi j)
  case Nil
  then show ?case by simp
next
  case (Cons x xs)
  show ?case
  proof (cases "m < x")
    case True
    with Cons.prems have "argMax_from x j (Suc j) xs = i" by simp
    from Cons.IH[OF this] show ?thesis
    proof
      assume "i = j \<and> (\<forall>y\<in>set xs. y \<le> x)"
      with True show ?thesis by simp
    next
      assume h: "Suc j \<le> i \<and> i < Suc j + length xs \<and> x < xs ! (i - Suc j)"
      then have "i - j = Suc (i - Suc j)" by auto
      with h True show ?thesis by auto
    qed
  next
    case False
    with Cons.prems have "argMax_from m mi (Suc j) xs = i" by simp
    from Cons.IH[OF this] show ?thesis
    proof
      assume "i = mi \<and> (\<forall>y\<in>set xs. y \<le> m)"
      with False show ?thesis by (simp add: not_less)
    next
      assume h: "Suc j \<le> i \<and> i < Suc j + length xs \<and> m < xs ! (i - Suc j)"
      then have "i - j = Suc (i - Suc j)" by auto
      with h show ?thesis by auto
    qed
  qed
qed

lemma argMax_oneHot_row:
  assumes "0 \<le> l" and "l < d \<or> l = 0"
  shows "argMax (map (\<lambda>j. if int j = l then 1 else (0::int)) [0..<nat d]) = nat l"
proof (cases "nat d")
  case 0
  with assms show ?thesis by (auto simp: argMax_def)
next
  case (Suc k)
  let ?f = "\<lambda>j. if int j = l then 1 else (0::int)"
  let ?xs = "map (\<lambda>j. ?f (Suc j)) [0..<k]"
  have row: "map ?f [0..<nat d] = ?f 0 # ?xs"
    unfolding Suc by (simp add: upt_conv_Cons map_Suc_upt[symmetric] del: upt_Suc)
  define i where "i = argMax_from (?f 0) 0 1 ?xs"
  have am: "argMax (map ?f [0..<nat d]) = i"
    unfolding row i_def by (simp add: argMax_def)
  from argMax_from_char[OF i_def[symmetric]]
  have ch: "(i = 0 \<and> (\<forall>x\<in>set ?xs. x \<le> ?f 0)) \<or> (1 \<le> i \<and> i < 1 + length ?xs \<and> ?f 0 < ?xs ! (i - 1))" .
  have "i = nat l"
  proof (cases "l = 0")
    case True
    from ch show ?thesis
    proof
      assume "i = 0 \<and> (\<forall>x\<in>set ?xs. x \<le> ?f 0)"
      with True show ?thesis by simp
    next
      assume h: "1 \<le> i \<and> i < 1 + length ?xs \<and> ?f 0 < ?xs ! (i - 1)"
      then have "i - 1 < k" by auto
      then have "?xs ! (i - 1) = ?f (Suc (i - 1))" by simp
      with h True show ?thesis by (simp split: if_splits)
    qed
  next
    case False
    with assms have l: "0 < l" "l < d" by auto
    then have nl: "nat l < Suc k" "0 < nat l" using Suc by linarith+
    from ch show ?thesis
    proof
      assume h: "i = 0 \<and> (\<forall>x\<in>set ?xs. x \<le> ?f 0)"
      have "nat l - 1 < k" using nl by simp
      then have "?xs ! (nat l - 1) \<in> set ?xs" by (intro nth_mem) simp
      moreover have "?xs ! (nat l - 1) = 1" using nl l \<open>nat l - 1 < k\<close> by simp
      ultimately have "(1::int) \<le> ?f 0" using h by metis
      with False show ?thesis by (simp split: if_splits)
    next
      assume h: "1 \<le> i \<and> i < 1 + length ?xs \<and> ?f 0 < ?xs ! (i - 1)"
      then have "i - 1 < k" by auto
      then have "?xs ! (i - 1) = ?f (Suc (i - 1))" by simp
      with h False have "int i = l" by (simp split: if_splits)
      then show ?thesis by simp
    qed
  qed
  with am show ?thesis by simp
qed

lemma argMax_oneHot:
  "\<forall>x\<in>set mel. 0 \<le> x \<and> (x < d \<or> x = 0) \<Longrightarrow> map argMax (oneHot mel d) = map nat mel"
  by (simp add: oneHot_def argMax_oneHot_row)

lemma set1_nth_neq: "i \<noteq> int j \<Longrightarrow> set1 v i row ! j = row ! j"
  by (cases "0 \<le> i") (auto simp: set1_def nth_list_update)

lemma set1_nth_eq: "j < length row \<Longrightarrow> set1 v (int j) row ! j = v"
  by (simp add: set1_def)

lemma set1_set: "set (set1 v i row) \<subseteq> insert v (set row)"
  using set_update_subset_insert[of row "nat i" v] by (auto simp: set1_def)

lemma forEach_frame:
  "melody_forEach c ns e mel = Inr F \<Longrightarrow> chained b ns \<Longrightarrow>
   length F = length mel \<and> (\<forall>j. int j < b \<longrightarrow> F ! j = mel ! j)"
proof (induction ns arbitrary: e mel b)
  case Nil
  then show ?case by simp
next
  case (Cons n ns)
  let ?m1 = "set1 NOTE_OFF (quantizedEndStep n)
               (set1 (pitch n - minPitch c + FIRST_PITCH) (quantizedStartStep n) mel)"
  from Cons.prems have F: "melody_forEach c ns (quantizedEndStep n) ?m1 = Inr F"
    by (simp split: if_splits)
  from Cons.prems have ch: "chained (quantizedEndStep n) ns"
    and ord: "b \<le> quantizedStartStep n" "quantizedStartStep n < quantizedEndStep n" by simp_all
  from Cons.IH[OF F ch] have len: "length F = length ?m1"
    and fr: "\<forall>j. int j < quantizedEndStep n \<longrightarrow> F ! j = ?m1 ! j" by simp_all
  have "F ! j = mel ! j" if "int j < b" for j
  proof -
    from that ord have "int j < quantizedEndStep n" "quantizedEndStep n \<noteq> int j"
      "quantizedStartStep n \<noteq> int j" by simp_all
    with fr show ?thesis by (simp add: set1_nth_neq)
  qed
  with len show ?case by (simp add: set1_length)
qed

lemma forEach_values:
  assumes "depth c = maxPitch c - minPitch c + 3"
  shows "melody_forEach c ns e mel = Inr F \<Longrightarrow>
   \<forall>x\<in>set mel. 0 \<le> x \<and> (x < depth c \<or> x = 0) \<Longrightarrow>
   \<forall>x\<in>set F. 0 \<le> x \<and> (x < depth c \<or> x = 0)"
proof (induction ns arbitrary: e mel)
  case Nil
  then show ?case by simp
next
  case (Cons n ns)
  let ?lab = "pitch n - minPitch c + FIRST_PITCH"
  let ?m0 = "set1 ?lab (quantizedStartStep n) mel"
  let ?m1 = "set1 NOTE_OFF (quantizedEndStep n) ?m0"
  from Cons.prems(1) have F: "melody_forEach c ns (quantizedEndStep n) ?m1 = Inr F"
    and rg: "minPitch c \<le> pitch n" "pitch n \<le> maxPitch c"
    by (simp_all split: if_splits)
  have ok: "0 \<le> x \<and> (x < depth c \<or> x = 0)" if "x \<in> set ?m1" for x
  proof -
    from that set1_set[of NOTE_OFF "quantizedEndStep n" ?m0] set1_set[of ?lab "quantizedStartStep n" mel]
    have "x = NOTE_OFF \<or> x = ?lab \<or> x \<in> set mel" by blast
    with rg assms Cons.prems(2) show ?thesis
      by (auto simp: NOTE_OFF_def FIRST_PITCH_def)
  qed
  from Cons.IH[OF F] ok show ?case by blast
qed

lemma step_boundary:
  assumes "s < length L" and "L ! s = (if cur = None then 0 else 1)"
  shows "melody_steps c L s (cur, acc) = melody_steps c L (Suc s) (None, acc @ close_at cur (int s))"
proof (cases cur)
  case None
  with assms show ?thesis by (simp add: steps_next switch_zero close_at_def)
next
  case (Some n)
  with assms show ?thesis by (simp add: steps_next switch_off)
qed

lemma roundtrip_chain:
  "chained (int s) ns \<Longrightarrow> list_all (in_range c) ns \<Longrightarrow>
   \<forall>n\<in>set ns. quantizedEndStep n < int (length mel) \<Longrightarrow> e \<le> int s \<Longrightarrow>
   \<forall>j. s < j \<and> j < length mel \<longrightarrow> mel ! j = 0 \<Longrightarrow>
   (cur \<noteq> None \<longrightarrow> s < length mel) \<Longrightarrow>
   (s < length mel \<longrightarrow> mel ! s = (if cur = None then 0 else 1)) \<Longrightarrow>
   \<exists>F. melody_forEach c ns e mel = Inr F \<and>
       melody_steps c (map nat F) s (cur, acc) = acc @ close_at cur (int s) @ ns"
proof (induction ns arbitrary: s e mel cur acc)
  case Nil
  let ?L = "map nat mel"
  have "melody_steps c ?L s (cur, acc) = acc @ close_at cur (int s)"
  proof (cases "s < length mel")
    case False
    with Nil.prems have "cur = None" by blast
    with False show ?thesis by (simp add: steps_done close_at_def)
  next
    case True
    with Nil.prems have "?L ! s = (if cur = None then 0 else 1)" by simp
    with True have "melody_steps c ?L s (cur, acc) = melody_steps c ?L (Suc s) (None, acc @ close_at cur (int s))"
      by (intro step_boundary) simp_all
    also have "\<dots> = melody_steps c ?L (length ?L) (None, acc @ close_at cur (int s))"
      using True Nil.prems(5) by (intro steps_skip) auto
    also have "\<dots> = acc @ close_at cur (int s)"
      by (simp add: steps_done close_at_def)
    finally show ?thesis .
  qed
  then show ?case by simp
next
  case (Cons n ns)
  let ?lab = "pitch n - minPitch c + FIRST_PITCH"
  let ?m0 = "set1 ?lab (quantizedStartStep n) mel"
  let ?m1 = "set1 NOTE_OFF (quantizedEndStep n) ?m0"
  define a where "a = nat (quantizedStartStep n)"
  define b where "b = nat (quantizedEndStep n)"
  from Cons.prems(1) have ch: "chained (quantizedEndStep n) ns"
    and o1: "int s \<le> quantizedStartStep n" and o2: "quantizedStartStep n < quantizedEndStep n"
    by simp_all
  from Cons.prems(3) have o3: "quantizedEndStep n < int (length mel)" by simp
  from Cons.prems(2) have rg: "in_range c n" and rgs: "list_all (in_range c) ns" by simp_all
  have ia: "int a = quantizedStartStep n" and ib: "int b = quantizedEndStep n"
    using o1 o2 by (simp_all add: a_def b_def)
  have sab: "s \<le> a" "a < b" "b < length mel"
    using o1 o2 o3 ia ib by linarith+
  have lab2: "2 \<le> nat ?lab" and labp: "int (nat ?lab) - 2 + minPitch c = pitch n"
    using rg unfolding in_range_def FIRST_PITCH_def by linarith+
  have step: "melody_forEach c (n # ns) e mel = melody_forEach c ns (quantizedEndStep n) ?m1"
    using rg o1 Cons.prems(4) by (simp add: in_range_def)
  have m1len: "length ?m1 = length mel" by (simp add: set1_length)
  have m1b: "?m1 ! b = 1"
    using sab by (simp add: ib[symmetric] set1_nth_eq set1_length NOTE_OFF_def)
  have m1a: "?m1 ! a = ?lab"
    using sab by (simp add: ia[symmetric] ib[symmetric] set1_nth_eq set1_nth_neq)
  have m1o: "?m1 ! j = mel ! j" if "j \<noteq> a" "j \<noteq> b" for j
    using that by (simp add: ia[symmetric] ib[symmetric] set1_nth_neq)
  let ?n0 = "Note_create (pitch n) (int a) 0"
  let ?acc1 = "acc @ close_at cur (int s)"
  have "\<exists>F. melody_forEach c ns (quantizedEndStep n) ?m1 = Inr F \<and>
       melody_steps c (map nat F) b (Some ?n0, ?acc1) = ?acc1 @ close_at (Some ?n0) (int b) @ ns"
  proof (rule Cons.IH)
    show "chained (int b) ns" using ch ib by simp
    show "list_all (in_range c) ns" by (rule rgs)
    show "\<forall>m\<in>set ns. quantizedEndStep m < int (length ?m1)"
      using Cons.prems(3) by (simp add: set1_length)
    show "quantizedEndStep n \<le> int b" using ib by simp
    show "\<forall>j. b < j \<and> j < length ?m1 \<longrightarrow> ?m1 ! j = 0"
      using Cons.prems(5) sab by (auto simp: m1o set1_length)
    show "Some ?n0 \<noteq> None \<longrightarrow> b < length ?m1" using sab by (simp add: set1_length)
    show "b < length ?m1 \<longrightarrow> ?m1 ! b = (if Some ?n0 = None then 0 else 1)"
      using m1b by simp
  qed
  then obtain F where F: "melody_forEach c ns (quantizedEndStep n) ?m1 = Inr F"
    and dec: "melody_steps c (map nat F) b (Some ?n0, ?acc1) = ?acc1 @ close_at (Some ?n0) (int b) @ ns"
    by blast
  from forEach_frame[OF F ch] have Flen: "length F = length mel"
    and Ffr: "\<And>j. j < b \<Longrightarrow> F ! j = ?m1 ! j"
    by (simp_all add: set1_length ib[symmetric])
  let ?L = "map nat F"
  have Llen: "length ?L = length mel" using Flen by simp
  have La: "?L ! a = nat ?lab" using sab Flen Ffr[of a] m1a by simp
  have Lz: "?L ! j = 0" if "s < j" "j < b" "j \<noteq> a" for j
  proof -
    from that sab have "j < length mel" by simp
    with that Cons.prems(5) have "mel ! j = 0" by simp
    with that Ffr[of j] m1o[of j] Flen \<open>j < length mel\<close> show ?thesis by simp
  qed
  have to_a: "melody_steps c ?L s (cur, acc) = melody_steps c ?L (Suc a) (Some ?n0, ?acc1)"
  proof (cases "s = a")
    case True
    have "melody_steps c ?L a (cur, acc) = melody_steps c ?L (Suc a) (melody_switch c a (?L ! a) (cur, acc))"
      using sab Llen by (intro steps_next) simp
    also have "melody_switch c a (?L ! a) (cur, acc) = (Some ?n0, acc @ close_at cur (int a))"
      unfolding La using lab2 labp by (simp add: switch_on)
    finally show ?thesis using True by simp
  next
    case False
    with sab have sa: "s < a" by simp
    have Ls: "?L ! s = (if cur = None then 0 else 1)"
    proof -
      from sa sab have "s < b" "s \<noteq> a" "s \<noteq> b" "s < length mel" by simp_all
      with Ffr[of s] m1o[of s] Cons.prems(7) Flen show ?thesis by simp
    qed
    have "melody_steps c ?L s (cur, acc) = melody_steps c ?L (Suc s) (None, ?acc1)"
      using sa sab Llen Ls by (intro step_boundary) simp_all
    also have "\<dots> = melody_steps c ?L a (None, ?acc1)"
      using sa sab Llen Lz by (intro steps_skip) auto
    also have "\<dots> = melody_steps c ?L (Suc a) (melody_switch c a (?L ! a) (None, ?acc1))"
      using sab Llen by (intro steps_next) simp
    also have "melody_switch c a (?L ! a) (None, ?acc1) = (Some ?n0, ?acc1)"
      unfolding La using lab2 labp by (simp add: switch_on close_at_def)
    finally show ?thesis .
  qed
  also have "\<dots> = melody_steps c ?L b (Some ?n0, ?acc1)"
    using sab Llen Lz by (intro steps_skip) auto
  also note dec
  also have "close_at (Some ?n0) (int b) = [n]"
    by (simp add: close_at_def Note_create_def ia ib)
  finally have "melody_steps c ?L s (cur, acc) = acc @ close_at cur (int s) @ n # ns" by simp
  with F step show ?case by simp
qed

lemma chained_from_sorted:
  "sorted (map quantizedStartStep S) \<Longrightarrow> distinct S \<Longrightarrow>
   \<forall>n\<in>set S. e \<le> quantizedStartStep n \<and> quantizedStartStep n < quantizedEndStep n \<Longrightarrow>
   \<forall>x\<in>set S. \<forall>y\<in>set S. x \<noteq> y \<longrightarrow>
      quantizedEndStep x \<le> quantizedStartStep y \<or> quantizedEndStep y \<le> quantizedStartStep x \<Longrightarrow>
   chained e S"
proof (induction S arbitrary: e)
  case Nil
  show ?case by simp
next
  case (Cons n S)
  have later: "quantizedEndStep n \<le> quantizedStartStep m" if m: "m \<in> set S" for m
  proof -
    from Cons.prems(2) m have "n \<noteq> m" by auto
    with Cons.prems(4) m
    have "quantizedEndStep n \<le> quantizedStartStep m \<or> quantizedEndStep m \<le> quantizedStartStep n"
      by simp
    moreover from Cons.prems(1) m have "quantizedStartStep n \<le> quantizedStartStep m" by simp
    moreover from Cons.prems(3) m have "quantizedStartStep m < quantizedEndStep m" by simp
    ultimately show ?thesis by linarith
  qed
  have "chained (quantizedEndStep n) S"
  proof (rule Cons.IH)
    show "sorted (map quantizedStartStep S)" using Cons.prems(1) by simp
    show "distinct S" using Cons.prems(2) by simp
    show "\<forall>m\<in>set S. quantizedEndStep n \<le> quantizedStartStep m \<and> quantizedStartStep m < quantizedEndStep m"
      using later Cons.prems(3) by simp
    show "\<forall>x\<in>set S. \<forall>y\<in>set S. x \<noteq> y \<longrightarrow>
      quantizedEndStep x \<le> quantizedStartStep y \<or> quantizedEndStep y \<le> quantizedStartStep x"
      using Cons.prems(4) by simp
  qed
  with Cons.prems(3) show ?case by simp
qed

lemma non_overlapping_set:
  assumes "non_overlapping ns" and "\<forall>n\<in>set ns. quantizedStartStep n < quantizedEndStep n"
  shows "distinct ns"
    and "\<forall>x\<in>set ns. \<forall>y\<in>set ns. x \<noteq> y \<longrightarrow>
      quantizedEndStep x \<le> quantizedStartStep y \<or> quantizedEndStep y \<le> quantizedStartStep x"
proof -
  show "distinct ns"
    unfolding distinct_conv_nth
  proof (intro allI impI)
    fix i j assume ij: "i < length ns" "j < length ns" "i \<noteq> j"
    with assms(1) have d: "quantizedEndStep (ns ! i) \<le> quantizedStartStep (ns ! j) \<or>
        quantizedEndStep (ns ! j) \<le> quantizedStartStep (ns ! i)"
      by (simp add: non_overlapping_def)
    from ij assms(2) have "quantizedStartStep (ns ! i) < quantizedEndStep (ns ! i)"
      "quantizedStartStep (ns ! j) < quantizedEndStep (ns ! j)" by simp_all
    with d show "ns ! i \<noteq> ns ! j" by auto
  qed
  show "\<forall>x\<in>set ns. \<forall>y\<in>set ns. x \<noteq> y \<longrightarrow>
      quantizedEndStep x \<le> quantizedStartStep y \<or> quantizedEndStep y \<le> quantizedStartStep x"
  proof (intro ballI impI)
    fix x y assume "x \<in> set ns" "y \<in> set ns" "x \<noteq> y"
    then obtain i j where "i < length ns" "j < length ns" "x = ns ! i" "y = ns ! j" "i \<noteq> j"
      by (metis in_set_conv_nth)
    with assms(1) show "quantizedEndStep x \<le> quantizedStartStep y \<or> quantizedEndStep y \<le> quantizedStartStep x"
      by (simp add: non_overlapping_def)
  qed
qed

text \<open>
  C1, as amended. For a converter made by the constructor and notes that do not overlap,
  with pitches within \<open>[minPitch, maxPitch]\<close>, start and end steps within
  \<open>[0, numSteps)\<close>, and each ending after it starts, \<open>toTensor\<close> returns a
  tensor, and \<open>toNoteSequence\<close> of that tensor returns the same notes, in ascending
  order of start step: the same set of (pitch, start step, end step).
\<close>

theorem melody_roundtrip:
  assumes "non_overlapping ns"
    and "\<forall>n\<in>set ns. lo \<le> pitch n \<and> pitch n \<le> hi"
    and "\<forall>n\<in>set ns. 0 \<le> quantizedStartStep n \<and> quantizedStartStep n < int steps \<and>
                     0 \<le> quantizedEndStep n \<and> quantizedEndStep n < int steps"
    and "\<forall>n\<in>set ns. quantizedStartStep n < quantizedEndStep n"
  shows "\<exists>t. snd (MelodyConverter_toTensor (MelodyConverter steps lo hi segs) ns) = Inr t \<and>
             MelodyConverter_toNoteSequence (MelodyConverter steps lo hi segs) t =
               sort_key quantizedStartStep ns \<and>
             set (MelodyConverter_toNoteSequence (MelodyConverter steps lo hi segs) t) = set ns"
proof -
  let ?c = "MelodyConverter steps lo hi segs"
  let ?S = "sort_key quantizedStartStep ns"
  let ?mel = "buffer1 (numSteps ?c)"
  have c: "minPitch ?c = lo" "maxPitch ?c = hi" "depth ?c = maxPitch ?c - minPitch ?c + 3"
    "numSteps ?c = steps"
    by (simp_all add: MelodyConverter_def)
  have len: "length ?mel = steps" by (simp add: buffer1_def c)
  note no = non_overlapping_set[OF assms(1,4)]
  have ch: "chained (int 0) ?S"
    by (rule chained_from_sorted) (use no assms(3,4) in simp_all)
  have rg: "list_all (in_range ?c) ?S"
    using assms(2) by (simp add: list_all_iff in_range_def c)
  have "\<exists>F. melody_forEach ?c ?S (-1) ?mel = Inr F \<and>
       melody_steps ?c (map nat F) 0 (None, []) = [] @ close_at None (int 0) @ ?S"
  proof (rule roundtrip_chain[OF ch rg])
    show "\<forall>n\<in>set ?S. quantizedEndStep n < int (length ?mel)"
      using assms(3) by (simp add: len)
    show "\<forall>j. 0 < j \<and> j < length ?mel \<longrightarrow> ?mel ! j = 0"
      by (simp add: buffer1_def)
    show "0 < length ?mel \<longrightarrow> ?mel ! 0 = (if (None :: inote option) = None then 0 else 1)"
      by (simp add: buffer1_def)
  qed simp_all
  then obtain F where F: "melody_forEach ?c ?S (-1) ?mel = Inr F"
    and dec: "melody_steps ?c (map nat F) 0 (None, []) = ?S"
    by (auto simp: close_at_def)
  have "\<forall>x\<in>set F. 0 \<le> x \<and> (x < depth ?c \<or> x = 0)"
    by (rule forEach_values[OF c(3) F]) (simp add: buffer1_def)
  then have lab: "map argMax (oneHot F (depth ?c)) = map nat F"
    by (rule argMax_oneHot)
  have t: "snd (MelodyConverter_toTensor ?c ns) = Inr (oneHot F (depth ?c))"
    by (simp add: MelodyConverter_toTensor_def Let_def F)
  have d: "MelodyConverter_toNoteSequence ?c (oneHot F (depth ?c)) = ?S"
    by (simp add: MelodyConverter_toNoteSequence_def lab dec)
  from t d show ?thesis by simp
qed

theorem melody_roundtrip_witness:
  "non_overlapping unsorted_example_notes \<and>
   (\<exists>t. snd (MelodyConverter_toTensor (MelodyConverter 4 60 61 None) unsorted_example_notes) = Inr t \<and>
        MelodyConverter_toNoteSequence (MelodyConverter 4 60 61 None) t =
          [Note_create 60 0 2, Note_create 61 2 3] \<and>
        set (MelodyConverter_toNoteSequence (MelodyConverter 4 60 61 None) t) =
          set unsorted_example_notes)"
proof -
  have h1: "non_overlapping unsorted_example_notes" by code_simp
  have h2: "\<forall>n\<in>set unsorted_example_notes. 60 \<le> pitch n \<and> pitch n \<le> 61"
    by (simp add: unsorted_example_notes_def Note_create_def)
  have h3: "\<forall>n\<in>set unsorted_example_notes.
      0 \<le> quantizedStartStep n \<and> quantizedStartStep n < int 4 \<and>
      0 \<le> quantizedEndStep n \<and> quantizedEndStep n < int 4"
    by (simp add: unsorted_example_notes_def Note_create_def)
  have h4: "\<forall>n\<in>set unsorted_example_notes. quantizedStartStep n < quantizedEndStep n"
    by (simp add: unsorted_example_notes_def Note_create_def)
  have s: "sort_key quantizedStartStep unsorted_example_notes = [Note_create 60 0 2, Note_create 61 2 3]"
    by code_simp
  from melody_roundtrip[OF h1 h2 h3 h4, of None] h1 show ?thesis
    unfolding s by simp
qed

text \<open>
  C1 as stated fails for a note that ends at the step it starts at: the note (60, 1, 1)
  overlaps nothing, its pitch and steps are within the bounds, its note-off replaces its
  note-on in the buffer, and the decoded sequence is empty.
\<close>

theorem melody_roundtrip_zero_length_note:
  "non_overlapping [Note_create 60 1 1] \<and>
   minPitch melody_example \<le> pitch (Note_create 60 1 1) \<and>
   pitch (Note_create 60 1 1) \<le> maxPitch melody_example \<and>
   0 \<le> quantizedStartStep (Note_create 60 1 1) \<and>
   quantizedStartStep (Note_create 60 1 1) < int (numSteps melody_example) \<and>
   0 \<le> quantizedEndStep (Note_create 60 1 1) \<and>
   quantizedEndStep (Note_create 60 1 1) < int (numSteps melody_example) \<and>
   snd (MelodyConverter_toTensor melody_example [Note_create 60 1 1]) =
     Inr [[1, 0, 0, 0], [0, 1, 0, 0], [1, 0, 0, 0], [1, 0, 0, 0]] \<and>
   MelodyConverter_toNoteSequence melody_example
     [[1, 0, 0, 0], [0, 1, 0, 0], [1, 0, 0, 0], [1 :: int, 0, 0, 0]] = [] \<and>
   set (MelodyConverter_toNoteSequence melody_example
     [[1, 0, 0, 0], [0, 1, 0, 0], [1, 0, 0, 0], [1 :: int, 0, 0, 0]]) \<noteq> set [Note_create 60 1 1]"
  by code_simp

end
